theory Spec2Isabelle
  imports Main
begin

section \<open>JavaScript values and errors\<close>

text \<open>
  Tree nodes, leaves, group members and proof fields are JavaScript primitives. The model
  keeps the type tag, since \<open>typeof\<close> checks and strict equality (\<open>===\<close>) depend on it:
  \<open>456 === 456n\<close> is false. A \<open>number\<close> is modelled by an integer (integer-valued
  doubles that are exactly representable); on this datatype \<open>===\<close> is HOL equality.
\<close>

datatype jsval = Undefined | Null | Number int | Str string | Big int

fun typeof :: "jsval \<Rightarrow> string" where
  "typeof Undefined = ''undefined''"
| "typeof Null = ''object''"
| "typeof (Number n) = ''number''"
| "typeof (Str s) = ''string''"
| "typeof (Big n) = ''bigint''"

text \<open>
  Every \<open>throw\<close> of the source is a value of \<open>error\<close>:
  \<^item> \<open>ParameterNotDefined name\<close>: TypeError "Parameter 'name' is not defined";
  \<^item> \<open>ParameterWrongType name\<close>: TypeError "Parameter 'name' is none of these types";
  \<^item> \<open>TreeDepthOutOfRange\<close>: "The tree depth must be between 1 and 32";
  \<^item> \<open>TooManyLeaves n\<close>: "The tree cannot contain more than n leaves";
  \<^item> \<open>TreeFull\<close>: "The tree is full";
  \<^item> \<open>LeafDoesNotExist\<close>: "The leaf does not exist in this tree";
  \<^item> \<open>NotAnArray\<close>: the TypeError of calling \<open>slice\<close>/\<open>splice\<close> on a value that has none;
  \<^item> \<open>GroupDepthOutOfRange\<close>: "The tree depth must be between 16 and 32";
  \<^item> \<open>BigIntError\<close>: the TypeError, RangeError or SyntaxError of the builtin \<open>BigInt(v)\<close>;
  \<^item> \<open>PoseidonError msg\<close>: an Error thrown by poseidon-lite;
  \<^item> \<open>ParameterNotA name\<close>: TypeError "Parameter 'name' is not a string" (identity package);
  \<^item> \<open>InvalidBigNumber\<close>: the argument error of \<open>BigNumber.from\<close>;
  \<^item> \<open>External msg\<close>: an exception raised by a collaborator that is passed in;
  \<^item> \<open>CannotReadProperty\<close>: the TypeError of reading a property of \<open>undefined\<close> or \<open>null\<close>;
  \<^item> \<open>CannotConvertBigInt\<close>: the TypeError "Cannot convert a BigInt value to a number".
\<close>

datatype error =
    ParameterNotDefined string
  | ParameterWrongType string
  | TreeDepthOutOfRange
  | TooManyLeaves nat
  | TreeFull
  | LeafDoesNotExist
  | NotAnArray
  | GroupDepthOutOfRange
  | BigIntError
  | PoseidonError string
  | ParameterNotA string
  | InvalidBigNumber
  | External string
  | CannotReadProperty
  | CannotConvertBigInt

type_synonym 'a result = "error + 'a"

type_synonym hashfn = "jsval list \<Rightarrow> jsval result"

text \<open>\<open>checkParameter$1(value, name, ...types)\<close> of the Merkle tree package.\<close>

definition checkParameter1 :: "jsval \<Rightarrow> string \<Rightarrow> string list \<Rightarrow> unit result" where
  "checkParameter1 v name types =
     (if v = Undefined then Inl (ParameterNotDefined name)
      else if typeof v \<notin> set types then Inl (ParameterWrongType name)
      else Inr ())"

abbreviation nodeTypes :: "string list" where
  "nodeTypes \<equiv> [''number'', ''string'', ''bigint'']"

text \<open>
  Array reads and writes as JavaScript does them: a read past the end is \<open>undefined\<close>,
  a write past the end extends the array (the skipped slots read as \<open>undefined\<close>).
\<close>

definition js_get :: "jsval list \<Rightarrow> nat \<Rightarrow> jsval" where
  "js_get xs i = (if i < length xs then xs ! i else Undefined)"

definition js_set :: "jsval list \<Rightarrow> nat \<Rightarrow> jsval \<Rightarrow> jsval list" where
  "js_set xs i v =
     (if i < length xs then xs[i := v]
      else xs @ replicate (i - length xs) Undefined @ [v])"

text \<open>\<open>a ?? b\<close> as the compiler wrote it: \<open>a !== null && a !== void 0 ? a : b\<close>.\<close>

definition nullish :: "jsval \<Rightarrow> bool" where
  "nullish v = (v = Null \<or> v = Undefined)"

definition coalesce :: "jsval \<Rightarrow> jsval \<Rightarrow> jsval" where
  "coalesce a b = (if a \<noteq> Null \<and> a \<noteq> Undefined then a else b)"

text \<open>Running a fallible function over a list, stopping at the first error.\<close>

fun mapM :: "('a \<Rightarrow> 'b result) \<Rightarrow> 'a list \<Rightarrow> 'b list result" where
  "mapM f [] = Inr []"
| "mapM f (x # xs) =
     (case f x of
        Inl e \<Rightarrow> Inl e
      | Inr y \<Rightarrow> (case mapM f xs of Inl e \<Rightarrow> Inl e | Inr ys \<Rightarrow> Inr (y # ys)))"

section \<open>Collaborators that are passed in\<close>

text \<open>
  The cryptographic primitives and the parsers of the platform are not part of the
  repository's logic; the functions below take them as a record \<open>env\<close>. \<open>StringToBigInt\<close>
  is the grammar of \<open>BigInt(string)\<close> (\<open>None\<close> is the SyntaxError), \<open>keccakZero\<close> is the
  function \<open>hash\<close> of the group (\<open>BigNumber.from\<close>, \<open>zeroPad\<close>, \<open>keccak256\<close>, shifted right by
  8 bits), \<open>poseidon1\<close> and \<open>poseidon2\<close> are the permutations on one and two field elements,
  \<open>sha512\<close> returns the hexadecimal digest, \<open>JSON_parse\<close> is \<open>JSON.parse\<close> (\<open>None\<close> when it
  throws), \<open>BigNumber_other\<close> is \<open>BigNumber.from(v).toBigInt()\<close> on a parsed value that is
  not a string, \<open>str2BigInt\<close> comes from the interfaces package, and \<open>StringToInteger\<close> is
  the conversion of a string to an integer where the platform expects an index
  (\<open>ToIntegerOrInfinity\<close>, 0 for a string that is not numeric; an infinite result acts in
  \<open>splice\<close> like any index beyond the length of the array, which is below \<open>2 ^ 32\<close>).
\<close>

datatype json =
    JArray "json list"
  | JString string
  | JNumber int
  | JBool bool
  | JNull
  | JObject "(string \<times> json) list"

record env =
  StringToBigInt :: "string \<Rightarrow> int option"
  keccakZero :: "jsval \<Rightarrow> int result"
  poseidon1 :: "int \<Rightarrow> int"
  poseidon2 :: "int \<Rightarrow> int \<Rightarrow> int"
  sha512 :: "string \<Rightarrow> string"
  JSON_parse :: "string \<Rightarrow> json option"
  BigNumber_other :: "json \<Rightarrow> int result"
  str2BigInt :: "string \<Rightarrow> int"
  StringToInteger :: "string \<Rightarrow> int"

section \<open>IncrementalMerkleTree\<close>

text \<open>
  The object state of the class. \<open>imt_nodes\<close> has \<open>imt_depth + 1\<close> rows (the constructor
  creates them and no method adds or removes a row), \<open>imt_zeroes\<close> has \<open>imt_depth\<close>
  entries. The depth is a natural number (the constructor rejects what is below 1), the
  arity a positive one (the group always passes 2).
\<close>

record imt =
  imt_hash :: hashfn
  imt_depth :: nat
  imt_zeroes :: "jsval list"
  imt_nodes :: "jsval list list"
  imt_arity :: nat

definition maxDepth :: nat where
  "maxDepth = 32"

text \<open>
  The children of one node: the window \<open>[levelStartIndex, levelEndIndex)\<close> of a row, with
  the level's zero value where the row ends (loops at lines 82-89 and 108-115).
\<close>

definition children_of :: "jsval list \<Rightarrow> jsval \<Rightarrow> nat \<Rightarrow> nat \<Rightarrow> jsval list" where
  "children_of row zero levelStartIndex levelEndIndex =
     map (\<lambda>i. if i < length row then row ! i else zero) [levelStartIndex..<levelEndIndex]"

text \<open>
  The loop shared, word for word, by \<open>insert\<close> (lines 76-92) and \<open>update\<close> (lines 102-118):
  it writes the node into its row, hashes the window around it and moves one level up.
  It returns the last node together with the rows, which the source mutates in place.
\<close>

function recompute ::
  "hashfn \<Rightarrow> nat \<Rightarrow> jsval list \<Rightarrow> nat \<Rightarrow> nat \<Rightarrow> jsval \<Rightarrow> nat \<Rightarrow> jsval list list
     \<Rightarrow> (jsval \<times> jsval list list) result" where
  "recompute hash arity zeroes depth level node index nodes =
     (if level < depth then
        (let position = index mod arity;
             levelStartIndex = index - position;
             levelEndIndex = levelStartIndex + arity;
             nodes1 = nodes[level := js_set (nodes ! level) index node];
             children = children_of (nodes1 ! level) (zeroes ! level) levelStartIndex levelEndIndex
         in case hash children of
              Inl e \<Rightarrow> Inl e
            | Inr node1 \<Rightarrow>
                recompute hash arity zeroes depth (level + 1) node1 (index div arity) nodes1)
      else Inr (node, nodes))"
  by pat_completeness auto
termination
  by (relation "measure (\<lambda>(hash, arity, zeroes, depth, level, node, index, nodes). depth - level)")
     auto

declare recompute.simps [simp del]

definition insert_leaf ::
  "jsval \<Rightarrow> nat \<Rightarrow> nat \<Rightarrow> jsval list list \<Rightarrow> jsval list \<Rightarrow> hashfn
     \<Rightarrow> (jsval \<times> jsval list list) result" where
  "insert_leaf leaf depth arity nodes zeroes hash =
     (case checkParameter1 leaf ''leaf'' nodeTypes of
        Inl e \<Rightarrow> Inl e
      | Inr _ \<Rightarrow>
          if length (nodes ! 0) \<ge> arity ^ depth then Inl TreeFull
          else recompute hash arity zeroes depth 0 leaf (length (nodes ! 0)) nodes)"

definition update_leaf ::
  "int \<Rightarrow> jsval \<Rightarrow> nat \<Rightarrow> nat \<Rightarrow> jsval list list \<Rightarrow> jsval list \<Rightarrow> hashfn
     \<Rightarrow> (jsval \<times> jsval list list) result" where
  "update_leaf index v depth arity nodes zeroes hash =
     (if index < 0 \<or> index \<ge> int (length (nodes ! 0)) then Inl LeafDoesNotExist
      else recompute hash arity zeroes depth 0 v (nat index) nodes)"

text \<open>\<open>Array.prototype.indexOf\<close>: the first position holding a strictly equal value, or -1.\<close>

fun indexOf_from :: "jsval list \<Rightarrow> jsval \<Rightarrow> int \<Rightarrow> int" where
  "indexOf_from [] v k = - 1"
| "indexOf_from (x # xs) v k = (if x = v then k else indexOf_from xs v (k + 1))"

definition indexOf :: "jsval \<Rightarrow> jsval list list \<Rightarrow> int result" where
  "indexOf leaf nodes =
     (case checkParameter1 leaf ''leaf'' nodeTypes of
        Inl e \<Rightarrow> Inl e
      | Inr _ \<Rightarrow> Inr (indexOf_from (nodes ! 0) leaf 0))"

subsection \<open>Proofs of membership\<close>

text \<open>
  An entry of \<open>siblings\<close> is an array (the window that \<open>createProof\<close> builds) or, after the
  group has collapsed it, a single value.
\<close>

datatype sibling = Window "jsval list" | Single jsval

record merkleProof =
  root :: jsval
  leaf :: jsval
  pathIndices :: "int list"
  siblings :: "sibling list"

text \<open>The loop of \<open>createProof\<close> (lines 43-60): one position and one window per level.\<close>

function proof_loop ::
  "nat \<Rightarrow> jsval list \<Rightarrow> nat \<Rightarrow> nat \<Rightarrow> nat \<Rightarrow> jsval list list \<Rightarrow> (nat \<times> jsval list) list" where
  "proof_loop arity zeroes depth level index nodes =
     (if level < depth then
        (let position = index mod arity;
             levelStartIndex = index - position;
             levelEndIndex = levelStartIndex + arity;
             window = map (\<lambda>i. if i < length (nodes ! level) then nodes ! level ! i
                                else zeroes ! level)
                          (filter (\<lambda>i. i \<noteq> index) [levelStartIndex..<levelEndIndex])
         in (position, window) # proof_loop arity zeroes depth (level + 1) (index div arity) nodes)
      else [])"
  by pat_completeness auto
termination
  by (relation "measure (\<lambda>(arity, zeroes, depth, level, index, nodes). depth - level)") auto

declare proof_loop.simps [simp del]

definition createProof ::
  "int \<Rightarrow> nat \<Rightarrow> nat \<Rightarrow> jsval list list \<Rightarrow> jsval list \<Rightarrow> jsval \<Rightarrow> merkleProof result" where
  "createProof index depth arity nodes zeroes rt =
     (if index < 0 \<or> index \<ge> int (length (nodes ! 0)) then Inl LeafDoesNotExist
      else
        (let path = proof_loop arity zeroes depth 0 (nat index) nodes
         in Inr \<lparr> root = rt,
                  leaf = nodes ! 0 ! nat index,
                  pathIndices = map (\<lambda>(position, window). int position) path,
                  siblings = map (\<lambda>(position, window). Window window) path \<rparr>))"

text \<open>
  \<open>verifyProof\<close> is exported and its argument comes from the caller, so the model does not
  assume the shape that \<open>createProof\<close> returns. The argument is a primitive value or an
  object; of an object the function reads the four properties \<open>root\<close>, \<open>leaf\<close>, \<open>siblings\<close>
  and \<open>pathIndices\<close>. \<open>root\<close> and \<open>leaf\<close> hold primitive values (\<open>undefined\<close> when the
  property is missing). \<open>siblings\<close> and \<open>pathIndices\<close> hold an array (\<open>Items\<close>) or a primitive
  value (\<open>Plain\<close>, again \<open>undefined\<close> when missing); the entries of \<open>pathIndices\<close> are
  primitive values. An array passed as the proof itself has none of the four properties
  and is the object whose properties are all \<open>undefined\<close>. Objects other than arrays as
  values of \<open>siblings\<close> and \<open>pathIndices\<close> are not part of this model.
\<close>

datatype 'a property = Items "'a list" | Plain jsval

record proofObject =
  obj_root :: jsval
  obj_leaf :: jsval
  obj_siblings :: "sibling property"
  obj_pathIndices :: "jsval property"

datatype proofArgument = Value jsval | Object proofObject

text \<open>The object that \<open>createProof\<close> returns, as an argument of \<open>verifyProof\<close>.\<close>

definition proof_object :: "merkleProof \<Rightarrow> proofArgument" where
  "proof_object p =
     Object \<lparr> obj_root = root p, obj_leaf = leaf p, obj_siblings = Items (siblings p),
              obj_pathIndices = Items (map Number (pathIndices p)) \<rparr>"

text \<open>
  \<open>checkParameter$1(value, name, "object")\<close> on a property: an array is an object; of the
  primitive values only \<open>null\<close> has the type \<open>object\<close>.
\<close>

definition checkProperty :: "'a property \<Rightarrow> string \<Rightarrow> unit result" where
  "checkProperty p name =
     (case p of Items xs \<Rightarrow> Inr () | Plain v \<Rightarrow> checkParameter1 v name [''object''])"

text \<open>
  \<open>proof.siblings[i].slice()\<close>: a copy of an array; a TypeError when the entry is
  \<open>undefined\<close> or \<open>null\<close> (no property can be read) or a number or a bigint (\<open>slice\<close> is not
  a function). A string has a \<open>slice\<close>, which returns the string; the result \<open>None\<close> stands
  for a value without \<open>splice\<close>.
\<close>

fun slice_entry :: "sibling \<Rightarrow> jsval list option result" where
  "slice_entry (Window w) = Inr (Some w)"
| "slice_entry (Single (Str s)) = Inr None"
| "slice_entry (Single Undefined) = Inl CannotReadProperty"
| "slice_entry (Single Null) = Inl CannotReadProperty"
| "slice_entry (Single v) = Inl NotAnArray"

text \<open>
  The first argument of \<open>splice\<close> is converted with \<open>ToIntegerOrInfinity\<close>: \<open>undefined\<close> and
  \<open>null\<close> give 0, a string is converted by the platform, a bigint is a TypeError.
\<close>

definition ToIntegerOrInfinity :: "env \<Rightarrow> jsval \<Rightarrow> int result" where
  "ToIntegerOrInfinity E v =
     (case v of
        Undefined \<Rightarrow> Inr 0
      | Null \<Rightarrow> Inr 0
      | Number n \<Rightarrow> Inr n
      | Str s \<Rightarrow> Inr (StringToInteger E s)
      | Big n \<Rightarrow> Inl CannotConvertBigInt)"

text \<open>
  \<open>children.splice(start, 0, node)\<close> with \<open>start\<close> already an integer: a negative \<open>start\<close>
  counts from the end, and the position is clamped to the array.
\<close>

definition splice_insert :: "jsval list \<Rightarrow> int \<Rightarrow> jsval \<Rightarrow> jsval list" where
  "splice_insert children start node =
     (let len = int (length children);
          k = (if start < 0 then max (len + start) 0 else min start len)
      in take (nat k) children @ [node] @ drop (nat k) children)"

text \<open>
  The loop of \<open>verifyProof\<close> (lines 129-133), one iteration per entry of \<open>siblings\<close>. The
  third argument holds \<open>proof.pathIndices\<close> from position \<open>i\<close> on: reading past the end of
  the array gives \<open>undefined\<close>, and reading an entry of \<open>null\<close> is a TypeError. The order is
  that of the source: \<open>slice\<close>, then the argument \<open>proof.pathIndices[i]\<close>, then the call of
  \<open>splice\<close>, then the hash.
\<close>

fun verify_loop ::
  "env \<Rightarrow> hashfn \<Rightarrow> sibling list \<Rightarrow> jsval property \<Rightarrow> jsval \<Rightarrow> jsval result" where
  "verify_loop E hash [] ps node = Inr node"
| "verify_loop E hash (s # ss) ps node =
     (case slice_entry s of
        Inl e \<Rightarrow> Inl e
      | Inr children \<Rightarrow>
     (case ps of
        Plain v \<Rightarrow> Inl CannotReadProperty
      | Items indices \<Rightarrow>
     (case children of
        None \<Rightarrow> Inl NotAnArray
      | Some w \<Rightarrow>
     (case ToIntegerOrInfinity E (case indices of [] \<Rightarrow> Undefined | p # _ \<Rightarrow> p) of
        Inl e \<Rightarrow> Inl e
      | Inr start \<Rightarrow>
     (case hash (splice_insert w start node) of
        Inl e \<Rightarrow> Inl e
      | Inr node1 \<Rightarrow> verify_loop E hash ss (Items (tl indices)) node1)))))"

text \<open>
  \<open>verifyProof\<close> (lines 122-135). The five guards come first; the fourth and the fifth let
  \<open>null\<close> pass, and so does the first: then reading \<open>proof.root\<close>, or
  \<open>proof.siblings.length\<close>, is a TypeError. The name in the message of the fifth guard is
  \<open>proof.pathElements\<close>.
\<close>

definition verifyProof :: "env \<Rightarrow> proofArgument \<Rightarrow> hashfn \<Rightarrow> bool result" where
  "verifyProof E proof hash =
     (case proof of
        Value v \<Rightarrow>
          (case checkParameter1 v ''proof'' [''object''] of
             Inl e \<Rightarrow> Inl e
           | Inr _ \<Rightarrow> Inl CannotReadProperty)
      | Object obj \<Rightarrow>
     (case checkParameter1 (obj_root obj) ''proof.root'' nodeTypes of
        Inl e \<Rightarrow> Inl e
      | Inr _ \<Rightarrow>
     (case checkParameter1 (obj_leaf obj) ''proof.leaf'' nodeTypes of
        Inl e \<Rightarrow> Inl e
      | Inr _ \<Rightarrow>
     (case checkProperty (obj_siblings obj) ''proof.siblings'' of
        Inl e \<Rightarrow> Inl e
      | Inr _ \<Rightarrow>
     (case checkProperty (obj_pathIndices obj) ''proof.pathElements'' of
        Inl e \<Rightarrow> Inl e
      | Inr _ \<Rightarrow>
     (case obj_siblings obj of
        Plain v \<Rightarrow> Inl CannotReadProperty
      | Items ss \<Rightarrow>
          (case verify_loop E hash ss (obj_pathIndices obj) (obj_leaf obj) of
             Inl e \<Rightarrow> Inl e
           | Inr node \<Rightarrow> Inr (obj_root obj = node))))))))"

subsection \<open>The constructor and the methods of the class\<close>

text \<open>
  First loop of the constructor (lines 175-180), one iteration per level: it records the
  level's zero value and hashes \<open>arity\<close> copies of it for the next level. It returns the
  list \<open>zeroes\<close> and the value left in \<open>zeroValue\<close> after the last iteration.
\<close>

fun zero_loop :: "hashfn \<Rightarrow> nat \<Rightarrow> nat \<Rightarrow> jsval \<Rightarrow> (jsval list \<times> jsval) result" where
  "zero_loop hash arity 0 zeroValue = Inr ([], zeroValue)"
| "zero_loop hash arity (Suc n) zeroValue =
     (case hash (replicate arity zeroValue) of
        Inl e \<Rightarrow> Inl e
      | Inr z1 \<Rightarrow>
          (case zero_loop hash arity n z1 of
             Inl e \<Rightarrow> Inl e
           | Inr (zs, zlast) \<Rightarrow> Inr (zeroValue # zs, zlast)))"

text \<open>
  Inner loops of the constructor (lines 186-193): the row above \<open>row\<close>. A child that is
  missing, \<open>null\<close> or \<open>undefined\<close> is replaced by the level's zero value.
\<close>

definition build_level :: "hashfn \<Rightarrow> nat \<Rightarrow> jsval \<Rightarrow> jsval list \<Rightarrow> jsval list result" where
  "build_level hash arity zero row =
     mapM (\<lambda>index. hash (map (\<lambda>i. coalesce (js_get row (index * arity + i)) zero) [0..<arity]))
          [0..<(length row + arity - 1) div arity]"

text \<open>Outer loop (line 185), one iteration per level and so per entry of \<open>zeroes\<close>.\<close>

fun build_levels :: "hashfn \<Rightarrow> nat \<Rightarrow> jsval list \<Rightarrow> jsval list \<Rightarrow> jsval list list result" where
  "build_levels hash arity [] row = Inr [row]"
| "build_levels hash arity (z # zs) row =
     (case build_level hash arity z row of
        Inl e \<Rightarrow> Inl e
      | Inr upper \<Rightarrow>
          (case build_levels hash arity zs upper of
             Inl e \<Rightarrow> Inl e
           | Inr rows \<Rightarrow> Inr (row # rows)))"

definition IncrementalMerkleTree ::
  "hashfn \<Rightarrow> nat \<Rightarrow> jsval \<Rightarrow> nat \<Rightarrow> jsval list \<Rightarrow> imt result" where
  "IncrementalMerkleTree hash depth zeroValue arity leaves =
     (case checkParameter1 zeroValue ''zeroValue'' nodeTypes of
        Inl e \<Rightarrow> Inl e
      | Inr _ \<Rightarrow>
          if depth < 1 \<or> depth > maxDepth then Inl TreeDepthOutOfRange
          else if length leaves > arity ^ depth then Inl (TooManyLeaves (arity ^ depth))
          else
            (case zero_loop hash arity depth zeroValue of
               Inl e \<Rightarrow> Inl e
             | Inr (zs, zlast) \<Rightarrow>
                 if length leaves > 0 then
                   (case build_levels hash arity zs leaves of
                      Inl e \<Rightarrow> Inl e
                    | Inr rows \<Rightarrow>
                        Inr \<lparr> imt_hash = hash, imt_depth = depth, imt_zeroes = zs,
                              imt_nodes = rows, imt_arity = arity \<rparr>)
                 else
                   Inr \<lparr> imt_hash = hash, imt_depth = depth, imt_zeroes = zs,
                         imt_nodes = replicate depth [] @ [[zlast]], imt_arity = arity \<rparr>))"

definition IMT_root :: "imt \<Rightarrow> jsval" where
  "IMT_root t = js_get (imt_nodes t ! imt_depth t) 0"

definition IMT_leaves :: "imt \<Rightarrow> jsval list" where
  "IMT_leaves t = imt_nodes t ! 0"

definition IMT_indexOf :: "imt \<Rightarrow> jsval \<Rightarrow> int result" where
  "IMT_indexOf t lf = indexOf lf (imt_nodes t)"

text \<open>The three mutators store the node that the loop returns as the new root.\<close>

definition set_root :: "imt \<Rightarrow> (jsval \<times> jsval list list) result \<Rightarrow> imt result" where
  "set_root t r =
     (case r of
        Inl e \<Rightarrow> Inl e
      | Inr (node, nodes1) \<Rightarrow>
          Inr (t\<lparr>imt_nodes :=
                    nodes1[imt_depth t := js_set (nodes1 ! imt_depth t) 0 node]\<rparr>))"

definition IMT_insert :: "imt \<Rightarrow> jsval \<Rightarrow> imt result" where
  "IMT_insert t lf =
     set_root t (insert_leaf lf (imt_depth t) (imt_arity t) (imt_nodes t) (imt_zeroes t)
                   (imt_hash t))"

definition IMT_delete :: "imt \<Rightarrow> int \<Rightarrow> imt result" where
  "IMT_delete t index =
     set_root t (update_leaf index (js_get (imt_zeroes t) 0) (imt_depth t) (imt_arity t)
                   (imt_nodes t) (imt_zeroes t) (imt_hash t))"

definition IMT_update :: "imt \<Rightarrow> int \<Rightarrow> jsval \<Rightarrow> imt result" where
  "IMT_update t index newLeaf =
     set_root t (update_leaf index newLeaf (imt_depth t) (imt_arity t)
                   (imt_nodes t) (imt_zeroes t) (imt_hash t))"

definition IMT_createProof :: "imt \<Rightarrow> int \<Rightarrow> merkleProof result" where
  "IMT_createProof t index =
     createProof index (imt_depth t) (imt_arity t) (imt_nodes t) (imt_zeroes t) (IMT_root t)"

definition IMT_verifyProof :: "env \<Rightarrow> imt \<Rightarrow> proofArgument \<Rightarrow> bool result" where
  "IMT_verifyProof E t proof = verifyProof E proof (imt_hash t)"

text \<open>Inserting the leaves of a list one at a time, in order.\<close>

fun insert_each :: "imt \<Rightarrow> jsval list \<Rightarrow> imt result" where
  "insert_each t [] = Inr t"
| "insert_each t (x # xs) =
     (case IMT_insert t x of Inl e \<Rightarrow> Inl e | Inr t1 \<Rightarrow> insert_each t1 xs)"

section \<open>Coercion to bigint and the hash of the group\<close>

text \<open>
  \<open>BigInt(v)\<close>: the identity on a bigint, the integer itself on a number (numbers are
  integers in this model), the platform's grammar on a string, and a TypeError on
  \<open>undefined\<close> and \<open>null\<close>.
\<close>

definition BigInt :: "env \<Rightarrow> jsval \<Rightarrow> int result" where
  "BigInt E v =
     (case v of
        Big n \<Rightarrow> Inr n
      | Number n \<Rightarrow> Inr n
      | Str s \<Rightarrow> (case StringToBigInt E s of None \<Rightarrow> Inl BigIntError | Some n \<Rightarrow> Inr n)
      | Undefined \<Rightarrow> Inl BigIntError
      | Null \<Rightarrow> Inl BigIntError)"

text \<open>
  \<open>poseidon2\<close> as the tree calls it, on the array of children: \<open>poseidon\<close> first maps
  \<open>BigInt\<close> over the inputs, then checks their number against the constants of the
  two-input instance (\<open>M.length\<close> is 3), and returns a bigint.
\<close>

definition poseidon2_hash :: "env \<Rightarrow> hashfn" where
  "poseidon2_hash E inputs0 =
     (case mapM (BigInt E) inputs0 of
        Inl e \<Rightarrow> Inl e
      | Inr inputs \<Rightarrow>
          if length inputs \<le> 0 then Inl (PoseidonError ''Not enough inputs'')
          else if length inputs > 16 then Inl (PoseidonError ''Too many inputs'')
          else if 3 \<noteq> length inputs + 1 then Inl (PoseidonError ''Incorrect M length'')
          else Inr (Big (poseidon2 E (inputs ! 0) (inputs ! 1))))"

section \<open>Group\<close>

text \<open>
  The class \<open>Group\<close> keeps its identifier and an \<open>IncrementalMerkleTree\<close> of arity 2 whose
  hash is \<open>poseidon2\<close> and whose zero value is the hash of the identifier. The constructor
  checks the depth, evaluates \<open>hash(id)\<close> and then \<open>members.map(BigInt)\<close>. Each method
  forwards to the tree; only \<open>addMember\<close> and the constructor coerce with \<open>BigInt\<close>.
  \<open>with_tree\<close> stores the tree a method has mutated.
\<close>

record group =
  group_id :: jsval
  merkleTree :: imt

definition Group :: "env \<Rightarrow> jsval \<Rightarrow> nat \<Rightarrow> jsval list \<Rightarrow> group result" where
  "Group E ident treeDepth members =
     (if treeDepth < 16 \<or> treeDepth > 32 then Inl GroupDepthOutOfRange
      else
        (case keccakZero E ident of
           Inl e \<Rightarrow> Inl e
         | Inr zeroValue \<Rightarrow>
        (case mapM (BigInt E) members of
           Inl e \<Rightarrow> Inl e
         | Inr ms \<Rightarrow>
        (case IncrementalMerkleTree (poseidon2_hash E) treeDepth (Big zeroValue) 2 (map Big ms) of
           Inl e \<Rightarrow> Inl e
         | Inr t \<Rightarrow> Inr \<lparr> group_id = ident, merkleTree = t \<rparr>))))"

definition Group_members :: "group \<Rightarrow> jsval list" where
  "Group_members g = IMT_leaves (merkleTree g)"

definition Group_indexOf :: "group \<Rightarrow> jsval \<Rightarrow> int result" where
  "Group_indexOf g member = IMT_indexOf (merkleTree g) member"

definition with_tree :: "group \<Rightarrow> imt result \<Rightarrow> group result" where
  "with_tree g r = (case r of Inl e \<Rightarrow> Inl e | Inr t \<Rightarrow> Inr (g\<lparr>merkleTree := t\<rparr>))"

definition Group_addMember :: "env \<Rightarrow> group \<Rightarrow> jsval \<Rightarrow> group result" where
  "Group_addMember E g member =
     (case BigInt E member of
        Inl e \<Rightarrow> Inl e
      | Inr m \<Rightarrow> with_tree g (IMT_insert (merkleTree g) (Big m)))"

definition Group_updateMember :: "group \<Rightarrow> int \<Rightarrow> jsval \<Rightarrow> group result" where
  "Group_updateMember g index member = with_tree g (IMT_update (merkleTree g) index member)"

definition Group_removeMember :: "group \<Rightarrow> int \<Rightarrow> group result" where
  "Group_removeMember g index = with_tree g (IMT_delete (merkleTree g) index)"

text \<open>
  \<open>generateMerkleProof\<close> replaces every entry \<open>s\<close> of \<open>siblings\<close> by \<open>s[0]\<close>. \<open>first_entry\<close> is
  \<open>s[0]\<close>: the first element of an array (\<open>undefined\<close> when it is empty), the first
  character of a string, a TypeError on \<open>undefined\<close> and \<open>null\<close>, and \<open>undefined\<close> on a
  number or a bigint.
\<close>

fun first_entry :: "sibling \<Rightarrow> jsval result" where
  "first_entry (Window w) = Inr (js_get w 0)"
| "first_entry (Single (Str s)) = Inr (if s = [] then Undefined else Str [hd s])"
| "first_entry (Single Undefined) = Inl CannotReadProperty"
| "first_entry (Single Null) = Inl CannotReadProperty"
| "first_entry (Single v) = Inr Undefined"

definition Group_generateMerkleProof :: "group \<Rightarrow> int \<Rightarrow> merkleProof result" where
  "Group_generateMerkleProof g index =
     (case IMT_createProof (merkleTree g) index of
        Inl e \<Rightarrow> Inl e
      | Inr p \<Rightarrow>
          (case mapM first_entry (siblings p) of
             Inl e \<Rightarrow> Inl e
           | Inr ss \<Rightarrow> Inr (p\<lparr>siblings := map Single ss\<rparr>)))"

section \<open>Identity\<close>

text \<open>
  The class \<open>Identity\<close>. Without an argument the constructor draws the trapdoor and the
  nullifier at random (the pair \<open>rnd\<close>); with a string that is not a JSON array it derives
  them from the two halves of the SHA-512 digest, each shifted right by 3 bits; with a
  JSON array it reads them back with \<open>BigNumber.from(...).toBigInt()\<close>.
\<close>

record identity =
  trapdoor :: int
  nullifier :: int
  secret :: int
  commitment :: int

text \<open>
  \<open>BigNumber.from\<close> on a string accepts \<open>-?0x[0-9a-f]+\<close>, matched without regard to case,
  and \<open>-?[0-9]+\<close>. A hexadecimal string is handed to \<open>toHex\<close> and \<open>BN\<close>, which strip the
  prefix \<open>0x\<close> only in lower case: with the prefix \<open>0X\<close> the letter reaches the digit parser
  and the call throws. The digits themselves are read in either case.
\<close>

definition hex_digit :: "char \<Rightarrow> nat option" where
  "hex_digit c =
     (let n = of_char c :: nat
      in if 48 \<le> n \<and> n \<le> 57 then Some (n - 48)
         else if 65 \<le> n \<and> n \<le> 70 then Some (n - 55)
         else if 97 \<le> n \<and> n \<le> 102 then Some (n - 87)
         else None)"

definition is_hex_digit :: "char \<Rightarrow> bool" where
  "is_hex_digit c = (hex_digit c \<noteq> None)"

definition is_dec_digit :: "char \<Rightarrow> bool" where
  "is_dec_digit c = (48 \<le> (of_char c :: nat) \<and> (of_char c :: nat) \<le> 57)"

definition digit_of :: "char \<Rightarrow> nat" where
  "digit_of c = (case hex_digit c of Some d \<Rightarrow> d | None \<Rightarrow> 0)"

definition digits_value :: "nat \<Rightarrow> string \<Rightarrow> nat" where
  "digits_value base ds = foldl (\<lambda>acc c. acc * base + digit_of c) 0 ds"

definition BigNumber_from_string :: "string \<Rightarrow> int result" where
  "BigNumber_from_string s =
     (let neg = (s \<noteq> [] \<and> hd s = CHR ''-'');
          body = (if neg then tl s else s);
          sign = (if neg then - 1 else 1)
      in if length body > 2 \<and> body ! 0 = CHR ''0'' \<and> (body ! 1 = CHR ''x'' \<or> body ! 1 = CHR ''X'')
            \<and> list_all is_hex_digit (drop 2 body)
         then (if body ! 1 = CHR ''X'' then Inl InvalidBigNumber
               else Inr (sign * int (digits_value 16 (drop 2 body))))
         else if body \<noteq> [] \<and> list_all is_dec_digit body
         then Inr (sign * int (digits_value 10 body))
         else Inl InvalidBigNumber)"

definition BigNumber_toBigInt :: "env \<Rightarrow> json option \<Rightarrow> int result" where
  "BigNumber_toBigInt E v =
     (case v of
        None \<Rightarrow> Inl InvalidBigNumber
      | Some (JString s) \<Rightarrow> BigNumber_from_string s
      | Some j \<Rightarrow> BigNumber_other E j)"

text \<open>
  \<open>isJsonArray\<close> catches the error of \<open>JSON.parse\<close>. \<open>json_index a k\<close> is \<open>a[k]\<close>, \<open>None\<close> for
  \<open>undefined\<close>.
\<close>

definition isJsonArray :: "env \<Rightarrow> string \<Rightarrow> bool" where
  "isJsonArray E jsonString =
     (case JSON_parse E jsonString of Some (JArray xs) \<Rightarrow> True | _ \<Rightarrow> False)"

definition padStart :: "string \<Rightarrow> nat \<Rightarrow> char \<Rightarrow> string" where
  "padStart s n c = replicate (n - length s) c @ s"

definition json_index :: "json list \<Rightarrow> nat \<Rightarrow> json option" where
  "json_index xs i = (if i < length xs then Some (xs ! i) else None)"

definition make_identity :: "env \<Rightarrow> int \<Rightarrow> int \<Rightarrow> identity" where
  "make_identity E t n =
     \<lparr> trapdoor = t, nullifier = n,
       secret = poseidon2 E n t, commitment = poseidon1 E (poseidon2 E n t) \<rparr>"

definition Identity :: "env \<Rightarrow> int \<times> int \<Rightarrow> jsval \<Rightarrow> identity result" where
  "Identity E rnd identityOrMessage =
     (case identityOrMessage of
        Undefined \<Rightarrow> Inr (make_identity E (fst rnd) (snd rnd))
      | Str s \<Rightarrow>
          if \<not> isJsonArray E s then
            (let h = padStart (sha512 E s) 128 CHR ''0'' in
             case BigInt E (Str (''0x'' @ drop 64 h)) of
               Inl e \<Rightarrow> Inl e
             | Inr t \<Rightarrow>
                 (case BigInt E (Str (''0x'' @ take 64 h)) of
                    Inl e \<Rightarrow> Inl e
                  | Inr n \<Rightarrow> Inr (make_identity E (t div 2 ^ 3) (n div 2 ^ 3))))
          else
            (case JSON_parse E s of
               Some (JArray a) \<Rightarrow>
                 (case BigNumber_toBigInt E (json_index a 0) of
                    Inl e \<Rightarrow> Inl e
                  | Inr t \<Rightarrow>
                      (case BigNumber_toBigInt E (json_index a 1) of
                         Inl e \<Rightarrow> Inl e
                       | Inr n \<Rightarrow> Inr (make_identity E t n)))
             | _ \<Rightarrow> Inl InvalidBigNumber)
      | _ \<Rightarrow> Inl (ParameterNotA ''identityOrMessage''))"

text \<open>
  \<open>toString\<close> gives \<open>bigint.toString(16)\<close> (lower-case digits, a leading minus sign for a
  negative value) after the prefix \<open>0x\<close>, and \<open>JSON.stringify\<close> of the array of the two
  strings, which contain no character to escape.
\<close>

function hex_of_nat :: "nat \<Rightarrow> string" where
  "hex_of_nat n =
     (if n < 16 then [''0123456789abcdef'' ! n]
      else hex_of_nat (n div 16) @ [''0123456789abcdef'' ! (n mod 16)])"
  by pat_completeness auto
termination
  by (relation "measure id") auto

declare hex_of_nat.simps [simp del]

definition toString16 :: "int \<Rightarrow> string" where
  "toString16 n = (if n < 0 then ''-'' @ hex_of_nat (nat (- n)) else hex_of_nat (nat n))"

definition JSON_stringify_strings :: "string list \<Rightarrow> string" where
  "JSON_stringify_strings xs =
     ''['' @ concat (map (\<lambda>(k, s). (if k = 0 then [] else '','') @ [CHR 0x22] @ s @ [CHR 0x22])
                      (zip [0..<length xs] xs)) @ '']''"

definition Identity_toString :: "identity \<Rightarrow> string" where
  "Identity_toString i =
     JSON_stringify_strings [''0x'' @ toString16 (trapdoor i), ''0x'' @ toString16 (nullifier i)]"

section \<open>genProof\<close>

text \<open>
  \<open>genProof\<close> assembles the inputs of the prover and then calls it. \<open>proof_inputs\<close> is the
  part before the call, in the order of evaluation of the source: the default values of
  the parameters \<open>messageId = 0\<close> and \<open>messageLimit = 1\<close>, which replace an argument that is
  \<open>undefined\<close>, then \<open>BigInt(room.id)\<close>,
  \<open>BigInt(messageLimit)\<close>, the hash of the message, the group of depth 20 over
  \<open>room.membership?.identityCommitments\<close> (\<open>None\<close> for \<open>undefined\<close>, which the constructor
  replaces by the empty array), the rate commitment, \<open>BigInt(messageId)\<close>, \<open>indexOf\<close> and
  \<open>generateMerkleProof\<close>. The prover is the parameter \<open>generateProof\<close> (\<open>Inl\<close> when it throws
  or when its promise is rejected), the clock is the parameter \<open>now\<close>, and \<open>nullifierString\<close>
  reads \<open>proof.snarkProof.publicSignals.nullifier.toString()\<close>.

  \<open>genProof\<close> is an \<open>async\<close> function. A call of a function completes by a \<open>throw\<close> (\<open>Inl\<close>)
  or by a returned value (\<open>Inr\<close>); the call of an \<open>async\<close> function always returns, and the
  value is a promise, which is rejected with the error that the body has thrown or
  fulfilled with the value that it has returned.
\<close>

datatype 'a promise = Fulfilled 'a | Rejected error

text \<open>A parameter with a default value: the default replaces \<open>undefined\<close> only.\<close>

definition default_to :: "jsval \<Rightarrow> jsval \<Rightarrow> jsval" where
  "default_to v d = (if v = Undefined then d else v)"

definition getMessageHash :: "env \<Rightarrow> string \<Rightarrow> int" where
  "getMessageHash E message = poseidon1 E (str2BigInt E message)"

definition getRateCommitmentHash :: "env \<Rightarrow> int \<Rightarrow> int \<Rightarrow> int" where
  "getRateCommitmentHash E identityCommitment userMessageLimit =
     poseidon2 E identityCommitment userMessageLimit"

record room =
  room_id :: jsval
  identityCommitments :: "jsval list option"

text \<open>The object \<open>proofInputs\<close>; its field \<open>x\<close> is called \<open>input_x\<close> here.\<close>

record proofInputs =
  rlnIdentifier :: int
  identitySecret :: int
  userMessageLimit :: int
  messageId :: int
  merkleProof :: merkleProof
  input_x :: int
  epoch :: int

record 'p messageI =
  msg_id :: string
  msg_message :: string
  msg_roomId :: int
  msg_proof :: 'p

definition proof_inputs ::
  "env \<Rightarrow> int \<Rightarrow> room \<Rightarrow> string \<Rightarrow> identity \<Rightarrow> jsval \<Rightarrow> jsval \<Rightarrow> proofInputs result" where
  "proof_inputs E now rm message ident messageId0 messageLimit0 =
     (let messageId1 = default_to messageId0 (Number 0);
          messageLimit = default_to messageLimit0 (Number 1) in
      case BigInt E (room_id rm) of Inl e \<Rightarrow> Inl e | Inr RLN_IDENIFIER \<Rightarrow>
     (case BigInt E messageLimit of Inl e \<Rightarrow> Inl e | Inr userMessageLimit0 \<Rightarrow>
     (let messageHash = getMessageHash E message in
      case Group E (Big RLN_IDENIFIER) 20
             (case identityCommitments rm of None \<Rightarrow> [] | Some ms \<Rightarrow> ms) of
        Inl e \<Rightarrow> Inl e
      | Inr grp \<Rightarrow>
     (let rateCommitment = getRateCommitmentHash E (commitment ident) userMessageLimit0 in
      case BigInt E messageId1 of Inl e \<Rightarrow> Inl e | Inr mid \<Rightarrow>
     (case Group_indexOf grp (Big rateCommitment) of Inl e \<Rightarrow> Inl e | Inr idx \<Rightarrow>
     (case Group_generateMerkleProof grp idx of Inl e \<Rightarrow> Inl e | Inr mp \<Rightarrow>
        Inr \<lparr> rlnIdentifier = RLN_IDENIFIER, identitySecret = secret ident,
              userMessageLimit = userMessageLimit0, messageId = mid,
              merkleProof = mp, input_x = messageHash, epoch = now \<rparr>))))))"

definition genProof ::
  "env \<Rightarrow> (proofInputs \<Rightarrow> 'p result) \<Rightarrow> ('p \<Rightarrow> string) \<Rightarrow> int \<Rightarrow> room \<Rightarrow> string \<Rightarrow> identity
     \<Rightarrow> jsval \<Rightarrow> jsval \<Rightarrow> 'p messageI promise result" where
  "genProof E generateProof nullifierString now rm message ident messageId0 messageLimit0 =
     Inr (case proof_inputs E now rm message ident messageId0 messageLimit0 of
            Inl e \<Rightarrow> Rejected e
          | Inr proofInputs \<Rightarrow>
              (case generateProof proofInputs of
                 Inl e \<Rightarrow> Rejected e
               | Inr proof \<Rightarrow>
                   Fulfilled \<lparr> msg_id = nullifierString proof, msg_message = message,
                               msg_roomId = rlnIdentifier proofInputs, msg_proof = proof \<rparr>))"

section \<open>Notions used to state the properties\<close>

text \<open>A hash function that returns a value on every input (it never throws).\<close>

definition pureHash :: "(jsval list \<Rightarrow> jsval) \<Rightarrow> hashfn" where
  "pureHash h cs = Inr (h cs)"

text \<open>The zero chain: the zero value of level \<open>l\<close> for a binary tree.\<close>

primrec zero_at :: "(jsval list \<Rightarrow> jsval) \<Rightarrow> jsval \<Rightarrow> nat \<Rightarrow> jsval" where
  "zero_at h z 0 = z"
| "zero_at h z (Suc l) = h [zero_at h z l, zero_at h z l]"

definition pair_at :: "jsval list \<Rightarrow> jsval \<Rightarrow> nat \<Rightarrow> jsval list" where
  "pair_at row z k =
     [if 2 * k < length row then row ! (2 * k) else z,
      if 2 * k + 1 < length row then row ! (2 * k + 1) else z]"

definition level_above :: "(jsval list \<Rightarrow> jsval) \<Rightarrow> jsval \<Rightarrow> jsval list \<Rightarrow> jsval list" where
  "level_above h z row = map (\<lambda>k. h (pair_at row z k)) [0..<(length row + 1) div 2]"

fun climb ::
  "(jsval list \<Rightarrow> jsval) \<Rightarrow> jsval list \<Rightarrow> nat \<Rightarrow> nat \<Rightarrow> jsval \<Rightarrow> nat \<Rightarrow> jsval list list
     \<Rightarrow> jsval \<times> jsval list list" where
  "climb h zs 0 level node index nodes = (node, nodes)"
| "climb h zs (Suc n) level node index nodes =
     climb h zs n (Suc level)
       (h (pair_at (js_set (nodes ! level) index node) (zs ! level) (index div 2)))
       (index div 2)
       (nodes[level := js_set (nodes ! level) index node])"

definition sibling_of :: "jsval list \<Rightarrow> jsval \<Rightarrow> nat \<Rightarrow> jsval" where
  "sibling_of row z index =
     (let j = (if even index then index + 1 else index - 1)
      in if j < length row then row ! j else z)"

definition row_above :: "(jsval list \<Rightarrow> jsval) \<Rightarrow> jsval \<Rightarrow> jsval list \<Rightarrow> jsval list" where
  "row_above h z row =
     map (\<lambda>index. h [coalesce (js_get row (index * 2)) z, coalesce (js_get row (index * 2 + 1)) z])
         [0..<(length row + 1) div 2]"

fun rows_from :: "(jsval list \<Rightarrow> jsval) \<Rightarrow> jsval list \<Rightarrow> jsval list \<Rightarrow> jsval list list" where
  "rows_from h [] row = [row]"
| "rows_from h (z # zs) row = row # rows_from h zs (row_above h z row)"

definition binary_tree :: "(jsval list \<Rightarrow> jsval) \<Rightarrow> nat \<Rightarrow> imt \<Rightarrow> bool" where
  "binary_tree h depth t =
     (imt_hash t = pureHash h \<and> imt_depth t = depth \<and> imt_arity t = 2
      \<and> length (imt_nodes t) = depth + 1 \<and> 1 \<le> depth)"

definition consistent ::
  "(jsval list \<Rightarrow> jsval) \<Rightarrow> jsval list \<Rightarrow> nat \<Rightarrow> jsval list list \<Rightarrow> nat \<Rightarrow> bool" where
  "consistent h zs depth rows level =
     (\<forall>l. level \<le> l \<and> Suc l < depth \<longrightarrow> rows ! Suc l = level_above h (zs ! l) (rows ! l))"

definition merkle_inv :: "(jsval list \<Rightarrow> jsval) \<Rightarrow> nat \<Rightarrow> imt \<Rightarrow> bool" where
  "merkle_inv h depth t =
     (binary_tree h depth t
      \<and> consistent h (imt_zeroes t) depth (imt_nodes t) 0
      \<and> (imt_nodes t ! 0 \<noteq> [] \<longrightarrow>
           IMT_root t = h (pair_at (imt_nodes t ! (depth - 1)) (imt_zeroes t ! (depth - 1)) 0)))"

inductive tree_state :: "(jsval list \<Rightarrow> jsval) \<Rightarrow> nat \<Rightarrow> imt \<Rightarrow> bool" for h depth where
  built: "IncrementalMerkleTree (pureHash h) depth zeroValue 2 leaves = Inr t
            \<Longrightarrow> tree_state h depth t"
| inserted: "tree_state h depth t \<Longrightarrow> IMT_insert t x = Inr t1 \<Longrightarrow> tree_state h depth t1"
| updated: "tree_state h depth t \<Longrightarrow> IMT_update t i v = Inr t1 \<Longrightarrow> tree_state h depth t1"
| deleted: "tree_state h depth t \<Longrightarrow> IMT_delete t i = Inr t1 \<Longrightarrow> tree_state h depth t1"

definition well_shaped :: "nat \<Rightarrow> imt \<Rightarrow> bool" where
  "well_shaped depth t =
     (length (imt_zeroes t) = depth
      \<and> (\<forall>l. Suc l < depth \<longrightarrow>
            length (imt_nodes t ! Suc l) = (length (imt_nodes t ! l) + 1) div 2)
      \<and> length (imt_nodes t ! depth) = 1
      \<and> length (imt_nodes t ! 0) \<le> 2 ^ depth)"









definition indices :: "proofObject \<Rightarrow> jsval list" where
  "indices obj = (case obj_pathIndices obj of Items ps \<Rightarrow> ps | Plain v \<Rightarrow> [])"


text \<open>
  A small concrete environment on which the definitions can be evaluated: toy
  permutations in place of Poseidon and Keccak, a scanner for JSON arrays of strings, and
  the SHA-512 digest of \<open>hello world\<close>.
\<close>

definition sample_h :: "jsval list \<Rightarrow> jsval" where
  "sample_h cs =
     Big (foldl (\<lambda>acc v. (31 * acc + (case v of Big n \<Rightarrow> n | Number n \<Rightarrow> n | _ \<Rightarrow> 0) + 7) mod 1009)
            1 cs)"


definition sample_StringToBigInt :: "string \<Rightarrow> int option" where
  "sample_StringToBigInt s =
     (if take 2 s = ''0x'' \<and> drop 2 s \<noteq> [] \<and> list_all is_hex_digit (drop 2 s)
      then Some (int (digits_value 16 (drop 2 s)))
      else if s \<noteq> [] \<and> list_all is_dec_digit s then Some (int (digits_value 10 s))
      else None)"

fun sample_scan :: "nat \<Rightarrow> string \<Rightarrow> json list \<Rightarrow> string \<Rightarrow> json option" where
  "sample_scan st cur acc [] = None"
| "sample_scan st cur acc (c # cs) =
     (if st = 0 then (if c = CHR 0x22 then sample_scan 1 [] acc cs else None)
      else if st = 1 then
        (if c = CHR 0x22 then sample_scan 2 [] (acc @ [JString cur]) cs
         else if c = CHR 0x5C then None
         else sample_scan 1 (cur @ [c]) acc cs)
      else if c = CHR '','' then sample_scan 0 [] acc cs
      else if c = CHR '']'' \<and> cs = [] then Some (JArray acc)
      else None)"

definition sample_JSON_parse :: "string \<Rightarrow> json option" where
  "sample_JSON_parse s =
     (case s of
        [] \<Rightarrow> None
      | c # cs \<Rightarrow> if c = CHR ''['' then (if cs = '']'' then Some (JArray []) else sample_scan 0 [] [] cs)
                 else None)"

definition sample_sha512 :: "string \<Rightarrow> string" where
  "sample_sha512 s =
     (if s = ''hello world''
      then ''309ecc489c12d6eb4cc40f50c902f2b4d0ed77ee511a7c7a9bcd3ca86d4cd86f'' @
           ''989dd35bc5ff499670da34255b45b0cfd830e81f605dcf7dc5542e93ae9cd76f''
      else replicate 128 CHR ''0'')"

definition sample_env :: env where
  "sample_env =
     \<lparr> StringToBigInt = sample_StringToBigInt,
       keccakZero = (\<lambda>v. case v of Big n \<Rightarrow> Inr ((7919 * n + 13) mod 2 ^ 248)
                                 | _ \<Rightarrow> Inl (External ''keccak256'')),
       poseidon1 = (\<lambda>a. (a * a + 5) mod 1009),
       poseidon2 = (\<lambda>a b. (31 * a + 17 * b + 7) mod 1009),
       sha512 = sample_sha512,
       JSON_parse = sample_JSON_parse,
       BigNumber_other = (\<lambda>j. Inl InvalidBigNumber),
       str2BigInt = (\<lambda>s. int (length s)),
       StringToInteger = (\<lambda>s. if list_all is_dec_digit s then int (digits_value 10 s) else 0) \<rparr>"

definition poseidon2_total :: "env \<Rightarrow> jsval list \<Rightarrow> jsval" where
  "poseidon2_total E cs =
     Big (poseidon2 E (case cs ! 0 of Big a \<Rightarrow> a | _ \<Rightarrow> 0) (case cs ! 1 of Big b \<Rightarrow> b | _ \<Rightarrow> 0))"

text \<open>
  The groups a program can hold: the ones the constructor returns, and the ones reached
  from them with \<open>addMember\<close>, \<open>updateMember\<close> and \<open>removeMember\<close>.
\<close>

inductive group_state :: "env \<Rightarrow> nat \<Rightarrow> group \<Rightarrow> bool" for E d where
  constructed: "Group E ident d members = Inr g \<Longrightarrow> group_state E d g"
| added: "group_state E d g \<Longrightarrow> Group_addMember E g member = Inr g1 \<Longrightarrow> group_state E d g1"
| changed: "group_state E d g \<Longrightarrow> Group_updateMember g index member = Inr g1
              \<Longrightarrow> group_state E d g1"
| removed: "group_state E d g \<Longrightarrow> Group_removeMember g index = Inr g1 \<Longrightarrow> group_state E d g1"

section \<open>The zero chain and the empty tree\<close>

lemma zero_at_shift: "zero_at h (h [z, z]) l = zero_at h z (Suc l)"
  by (induction l) simp_all

lemma replicate_two: "replicate 2 x = [x, x]"
  by (simp add: numeral_2_eq_2)

lemma zero_loop_pure:
  "zero_loop (pureHash h) 2 n z = Inr (map (zero_at h z) [0..<n], zero_at h z n)"
proof (induction n arbitrary: z)
  case 0
  show ?case by simp
next
  case (Suc n)
  have "map (zero_at h z) [0..<Suc n] = z # map (zero_at h (h [z, z])) [0..<n]"
    by (simp add: upt_conv_Cons map_Suc_upt [symmetric] zero_at_shift del: upt_Suc zero_at.simps(2))
  then show ?case
    using Suc.IH [of "h [z, z]"]
    by (simp add: pureHash_def replicate_two zero_at_shift del: upt_Suc zero_at.simps(2))
qed

lemma checkParameter1_ok:
  "typeof v \<in> set types \<Longrightarrow> v \<noteq> Undefined \<Longrightarrow> checkParameter1 v name types = Inr ()"
  by (simp add: checkParameter1_def)

lemma node_type_defined: "typeof v \<in> set nodeTypes \<Longrightarrow> v \<noteq> Undefined"
  by (cases v) auto

lemma empty_tree:
  assumes "1 \<le> depth" "depth \<le> 32" "typeof zeroValue \<in> set nodeTypes"
  shows "IncrementalMerkleTree (pureHash h) depth zeroValue 2 [] =
           Inr \<lparr> imt_hash = pureHash h, imt_depth = depth,
                 imt_zeroes = map (zero_at h zeroValue) [0..<depth],
                 imt_nodes = replicate depth [] @ [[zero_at h zeroValue depth]],
                 imt_arity = 2 \<rparr>"
  using assms node_type_defined [OF assms(3)]
  by (simp add: IncrementalMerkleTree_def checkParameter1_ok zero_loop_pure maxDepth_def)

text \<open>
  C8. For every depth between 1 and 32, every zero value that the constructor accepts and
  every hash function that returns, the tree constructed without leaves has the given
  zero value as \<open>zeroes[0]\<close>, each further entry of \<open>zeroes\<close> is the hash of two copies of
  the entry below it, and the root is the zero chain continued one level beyond the last
  entry: the hash of two copies of \<open>zeroes[depth - 1]\<close>.
\<close>

theorem empty_tree_root:
  assumes "1 \<le> depth" and "depth \<le> 32" and "typeof zeroValue \<in> set nodeTypes"
  shows "\<exists>t. IncrementalMerkleTree (pureHash h) depth zeroValue 2 [] = Inr t
           \<and> length (imt_zeroes t) = depth
           \<and> imt_zeroes t ! 0 = zeroValue
           \<and> (\<forall>l. 0 < l \<and> l < depth \<longrightarrow>
                 imt_zeroes t ! l = h [imt_zeroes t ! (l - 1), imt_zeroes t ! (l - 1)])
           \<and> IMT_root t = h [imt_zeroes t ! (depth - 1), imt_zeroes t ! (depth - 1)]"
proof -
  let ?t = "\<lparr> imt_hash = pureHash h, imt_depth = depth,
                 imt_zeroes = map (zero_at h zeroValue) [0..<depth],
                 imt_nodes = replicate depth [] @ [[zero_at h zeroValue depth]],
                 imt_arity = 2 \<rparr>"
  have step: "zero_at h zeroValue l = h [zero_at h zeroValue (l - 1), zero_at h zeroValue (l - 1)]"
    if "0 < l" for l
    using that by (cases l) simp_all
  have "IMT_root ?t = zero_at h zeroValue depth"
    by (simp add: IMT_root_def js_get_def nth_append)
  also have "\<dots> = h [zero_at h zeroValue (depth - 1), zero_at h zeroValue (depth - 1)]"
    using assms(1) by (simp add: step)
  finally have r: "IMT_root ?t = h [imt_zeroes ?t ! (depth - 1), imt_zeroes ?t ! (depth - 1)]"
    using assms(1) by simp
  have z: "\<forall>l. 0 < l \<and> l < depth \<longrightarrow>
             imt_zeroes ?t ! l = h [imt_zeroes ?t ! (l - 1), imt_zeroes ?t ! (l - 1)]"
    by (auto simp: step)
  have z0: "imt_zeroes ?t ! 0 = zeroValue" using assms(1) by simp
  show ?thesis
    using empty_tree [OF assms, of h] r z z0 by (intro exI [of _ ?t]) simp
qed

theorem empty_tree_root_witness:
  "(1::nat) \<le> 3 \<and> (3::nat) \<le> 32 \<and> typeof (Big 0) \<in> set nodeTypes
   \<and> IMT_root (projr (IncrementalMerkleTree (pureHash (\<lambda>cs. Big (int (length cs)))) 3 (Big 0) 2 []))
       = Big 2"
  using empty_tree_root [of 3 "Big 0" "\<lambda>cs. Big (int (length cs))"]
  by auto

section \<open>The loop of insert and update\<close>

text \<open>For a binary tree and a hash function that returns, \<open>recompute\<close> is the function \<open>climb\<close>.\<close>

lemma window_start: "index - index mod 2 = 2 * (index div 2)" for index :: nat
  by presburger

lemma children_pair:
  "children_of row z (index - index mod 2) (index - index mod 2 + 2) = pair_at row z (index div 2)"
  by (simp add: children_of_def pair_at_def window_start upt_rec [of "2 * (index div 2)"]
        upt_rec [of "Suc (2 * (index div 2))"])

lemma children_pair_Suc:
  "children_of row z (index - index mod 2) (Suc (Suc (index - index mod 2))) =
     pair_at row z (index div 2)"
  using children_pair [of row z index] by simp

lemma pureHash_app: "pureHash h cs = Inr (h cs)"
  by (simp add: pureHash_def)

lemma recompute_climb:
  "n = depth - level \<Longrightarrow> level \<le> depth \<Longrightarrow> depth < length nodes \<Longrightarrow>
   recompute (pureHash h) 2 zs depth level node index nodes =
     Inr (climb h zs n level node index nodes)"
proof (induction n arbitrary: level node index nodes)
  case 0
  then show ?case by (simp add: recompute.simps)
next
  case (Suc n)
  then have lt: "level < depth" and len: "level < length nodes" by auto
  have "recompute (pureHash h) 2 zs depth level node index nodes =
        recompute (pureHash h) 2 zs depth (level + 1)
          (h (pair_at (js_set (nodes ! level) index node) (zs ! level) (index div 2)))
          (index div 2) (nodes[level := js_set (nodes ! level) index node])"
    using lt len
    by (subst recompute.simps) (simp add: Let_def children_pair_Suc pureHash_def)
  also have "\<dots> = Inr (climb h zs n (level + 1)
          (h (pair_at (js_set (nodes ! level) index node) (zs ! level) (index div 2)))
          (index div 2) (nodes[level := js_set (nodes ! level) index node]))"
    using Suc.prems by (intro Suc.IH) auto
  finally show ?case by simp
qed

lemma length_js_set: "length (js_set xs i v) = max (length xs) (Suc i)"
  by (auto simp: js_set_def)

lemma js_set_nth_same: "js_set xs i v ! i = v"
  by (auto simp: js_set_def nth_append)

lemma js_set_nth_other: "j \<noteq> i \<Longrightarrow> j < length xs \<Longrightarrow> js_set xs i v ! j = xs ! j"
  by (auto simp: js_set_def nth_append)

lemma js_set_append: "js_set xs (length xs) v = xs @ [v]"
  by (simp add: js_set_def)

text \<open>Each row on the path is written at one position; the other rows are untouched.\<close>

lemma climb_frame:
  "level + n \<le> length nodes \<Longrightarrow> climb h zs n level node index nodes = (r, nodes') \<Longrightarrow>
   length nodes' = length nodes
   \<and> (\<forall>j. j < level \<or> level + n \<le> j \<longrightarrow> nodes' ! j = nodes ! j)
   \<and> (\<forall>k < n. \<exists>v. nodes' ! (level + k) = js_set (nodes ! (level + k)) (index div 2 ^ k) v)
   \<and> (0 < n \<longrightarrow> nodes' ! level = js_set (nodes ! level) index node)"
proof (induction n arbitrary: level node index nodes)
  case 0
  then show ?case by simp
next
  case (Suc n)
  let ?row = "js_set (nodes ! level) index node"
  let ?nodes1 = "nodes[level := ?row]"
  let ?node1 = "h (pair_at ?row (zs ! level) (index div 2))"
  from Suc.prems have c: "climb h zs n (Suc level) ?node1 (index div 2) ?nodes1 = (r, nodes')"
    by simp
  from Suc.prems have len: "Suc level + n \<le> length ?nodes1" and lv: "level < length nodes" by auto
  note ih = Suc.IH [OF len c]
  have l: "length nodes' = length nodes" using ih by simp
  have out: "nodes' ! j = nodes ! j" if "j < level \<or> level + Suc n \<le> j" for j
  proof -
    have "nodes' ! j = ?nodes1 ! j" using ih that by auto
    also have "\<dots> = nodes ! j" using that by auto
    finally show ?thesis .
  qed
  have here: "nodes' ! level = ?row"
  proof -
    have "nodes' ! level = ?nodes1 ! level" using ih by auto
    then show ?thesis using lv by simp
  qed
  have path: "\<exists>v. nodes' ! (level + k) = js_set (nodes ! (level + k)) (index div 2 ^ k) v"
    if "k < Suc n" for k
  proof (cases k)
    case 0
    then show ?thesis using here by auto
  next
    case (Suc k')
    then have "k' < n" using that by simp
    then obtain v where
      "nodes' ! (Suc level + k') = js_set (?nodes1 ! (Suc level + k')) (index div 2 div 2 ^ k') v"
      using ih by blast
    then have "nodes' ! (level + k) = js_set (nodes ! (level + k)) (index div 2 ^ k) v"
      using Suc by (simp add: div_mult2_eq)
    then show ?thesis ..
  qed
  show ?case using l out here path by blast
qed

lemma climb_result_hash:
  "\<exists>cs. fst (climb h zs (Suc n) level node index nodes) = h cs"
proof (induction n arbitrary: level node index nodes)
  case 0
  show ?case by auto
next
  case (Suc n)
  show ?case
    using Suc.IH [of "Suc level"
        "h (pair_at (js_set (nodes ! level) index node) (zs ! level) (index div 2))"
        "index div 2" "nodes[level := js_set (nodes ! level) index node]"]
    by simp
qed

subsection \<open>The proof of the leaf that the loop has just written\<close>

lemma proof_loop_step:
  "level < depth \<Longrightarrow>
   proof_loop 2 zs depth level index nodes =
     (index mod 2, [sibling_of (nodes ! level) (zs ! level) index])
       # proof_loop 2 zs depth (Suc level) (index div 2) nodes"
proof -
  assume lt: "level < depth"
  have f: "filter (\<lambda>i. i \<noteq> index) [index - index mod 2..<index - index mod 2 + 2] =
           [if even index then index + 1 else index - 1]"
  proof (cases "even index")
    case True
    then have "index mod 2 = 0" by presburger
    then show ?thesis using True by (simp add: upt_rec [of index] upt_rec [of "Suc index"])
  next
    case False
    then obtain m where i: "index = 2 * m + 1" by (elim oddE)
    have "[2 * m..<2 * m + 2] = [2 * m, Suc (2 * m)]"
      by (simp add: upt_rec [of "2 * m"] upt_rec [of "Suc (2 * m)"])
    then show ?thesis using i by simp
  qed
  have f': "filter (\<lambda>i. i \<noteq> index) [index - index mod 2..<Suc (Suc (index - index mod 2))] =
           [if even index then index + 1 else index - 1]"
    using f by simp
  show ?thesis
    using lt
    by (subst proof_loop.simps) (simp add: Let_def f' sibling_of_def del: upt_Suc)
qed

lemma proof_loop_done: "\<not> level < depth \<Longrightarrow> proof_loop arity zs depth level index nodes = []"
  by (subst proof_loop.simps) simp

lemma length_proof_loop:
  "n = depth - level \<Longrightarrow> length (proof_loop 2 zs depth level index nodes) = n"
proof (induction n arbitrary: level index)
  case 0
  then show ?case by (simp add: proof_loop_done)
next
  case (Suc n)
  then have "level < depth" by simp
  then show ?case using Suc by (simp add: proof_loop_step)
qed

lemma proof_loop_nth:
  "level + k < depth \<Longrightarrow>
   proof_loop 2 zs depth level index nodes ! k =
     (index div 2 ^ k mod 2, [sibling_of (nodes ! (level + k)) (zs ! (level + k)) (index div 2 ^ k)])"
proof (induction k arbitrary: level index)
  case 0
  then show ?case by (simp add: proof_loop_step)
next
  case (Suc k)
  then have lt: "level < depth" and "Suc level + k < depth" by simp_all
  from Suc.IH [OF this(2), of "index div 2"]
  show ?case by (simp add: proof_loop_step [OF lt] div_mult2_eq)
qed

lemma sibling_of_cases: "sibling_of row z i \<in> set row \<or> sibling_of row z i = z"
  by (auto simp: sibling_of_def Let_def)

lemma splice_pair:
  assumes "index < length row"
  shows "splice_insert [sibling_of row z index] (int (index mod 2)) (row ! index) =
           pair_at row z (index div 2)"
proof (cases "even index")
  case True
  then obtain m where i: "index = 2 * m" by (elim evenE)
  show ?thesis
    using assms by (simp add: i splice_insert_def sibling_of_def pair_at_def)
next
  case False
  then obtain m where i: "index = 2 * m + 1" by (elim oddE)
  have lt: "2 * m < length row" using assms i by simp
  show ?thesis
    using assms lt by (simp add: i splice_insert_def sibling_of_def pair_at_def)
qed

lemma verify_loop_number_step:
  "verify_loop E (pureHash h) (Window w # ss) (Items (Number k # ps)) node =
     verify_loop E (pureHash h) ss (Items ps) (h (splice_insert w k node))"
  by (simp add: ToIntegerOrInfinity_def pureHash_def)

lemma climb_verify:
  assumes "level + n = depth" and "depth \<le> length nodes"
    and "climb h zs n level node index nodes = (r, nodes')"
    and "\<forall>j. level \<le> j \<and> j < depth \<longrightarrow> final ! j = nodes' ! j"
  shows "verify_loop E (pureHash h)
           (map (\<lambda>(position, window). Window window) (proof_loop 2 zs depth level index final))
           (Items (map Number
              (map (\<lambda>(position, window). int position) (proof_loop 2 zs depth level index final))))
           node = Inr r"
  using assms
proof (induction n arbitrary: level node index nodes)
  case 0
  then show ?case by (simp add: proof_loop_done)
next
  case (Suc n)
  let ?row = "js_set (nodes ! level) index node"
  let ?nodes1 = "nodes[level := ?row]"
  let ?node1 = "h (pair_at ?row (zs ! level) (index div 2))"
  from Suc.prems have lt: "level < depth" by simp
  from Suc.prems have c: "climb h zs n (Suc level) ?node1 (index div 2) ?nodes1 = (r, nodes')"
    by simp
  have "level + Suc n \<le> length nodes" using Suc.prems by simp
  from climb_frame [OF this Suc.prems(3)] have "nodes' ! level = ?row" by simp
  then have fl: "final ! level = ?row" using Suc.prems(4) lt by simp
  have idx: "index < length ?row" by (simp add: length_js_set)
  have sp: "splice_insert [sibling_of ?row (zs ! level) index] (int (index mod 2)) node =
            pair_at ?row (zs ! level) (index div 2)"
    using splice_pair [OF idx, of "zs ! level"] by (simp add: js_set_nth_same)
  have ih: "verify_loop E (pureHash h)
           (map (\<lambda>(position, window). Window window)
              (proof_loop 2 zs depth (Suc level) (index div 2) final))
           (Items (map Number
              (map (\<lambda>(position, window). int position)
                 (proof_loop 2 zs depth (Suc level) (index div 2) final))))
           ?node1 = Inr r"
    using Suc.prems by (intro Suc.IH [OF _ _ c]) auto
  have "verify_loop E (pureHash h)
           (Window [sibling_of ?row (zs ! level) index]
              # map (\<lambda>(position, window). Window window)
                  (proof_loop 2 zs depth (Suc level) (index div 2) final))
           (Items (Number (int (index mod 2))
              # map Number
                  (map (\<lambda>(position, window). int position)
                     (proof_loop 2 zs depth (Suc level) (index div 2) final))))
           node = Inr r"
    unfolding verify_loop_number_step sp by (rule ih)
  then show ?case
    by (simp add: proof_loop_step [OF lt] fl del: verify_loop.simps)
qed

subsection \<open>The constructor with a hash function that returns\<close>

lemma mapM_pure: "mapM (\<lambda>x. Inr (f x)) xs = Inr (map f xs)"
  by (induction xs) simp_all

lemma build_level_pure: "build_level (pureHash h) 2 z row = Inr (row_above h z row)"
proof -
  have "[0..<2] = [0, Suc 0]" by (simp add: upt_rec)
  then show ?thesis
    by (simp add: build_level_def row_above_def pureHash_def mapM_pure del: upt_Suc)
qed

lemma build_levels_pure: "build_levels (pureHash h) 2 zs row = Inr (rows_from h zs row)"
  by (induction zs arbitrary: row) (simp_all add: build_level_pure)

lemma length_rows_from: "length (rows_from h zs row) = Suc (length zs)"
  by (induction zs arbitrary: row) simp_all

lemma rows_from_0: "rows_from h zs row ! 0 = row"
  by (cases zs) simp_all

lemma constructed_tree:
  assumes "1 \<le> depth" "depth \<le> 32" "typeof zeroValue \<in> set nodeTypes"
    and "length leaves \<le> 2 ^ depth"
  shows "IncrementalMerkleTree (pureHash h) depth zeroValue 2 leaves =
           Inr \<lparr> imt_hash = pureHash h, imt_depth = depth,
                 imt_zeroes = map (zero_at h zeroValue) [0..<depth],
                 imt_nodes =
                   (if leaves = [] then replicate depth [] @ [[zero_at h zeroValue depth]]
                    else rows_from h (map (zero_at h zeroValue) [0..<depth]) leaves),
                 imt_arity = 2 \<rparr>"
  using assms node_type_defined [OF assms(3)]
  by (simp add: IncrementalMerkleTree_def checkParameter1_ok zero_loop_pure maxDepth_def
        build_levels_pure)

lemma constructed_binary:
  assumes "1 \<le> depth" "depth \<le> 32" "typeof zeroValue \<in> set nodeTypes"
    and "length leaves \<le> 2 ^ depth"
  shows "\<exists>t. IncrementalMerkleTree (pureHash h) depth zeroValue 2 leaves = Inr t
           \<and> binary_tree h depth t \<and> imt_nodes t ! 0 = leaves
           \<and> imt_zeroes t = map (zero_at h zeroValue) [0..<depth]"
proof (cases "leaves = []")
  case True
  then show ?thesis
    using assms(1) by (simp add: empty_tree [OF assms(1,2,3)] binary_tree_def nth_append)
next
  case False
  then show ?thesis
    using assms(1)
    by (simp add: constructed_tree [OF assms] binary_tree_def length_rows_from rows_from_0)
qed

subsection \<open>Insertion\<close>

lemma IMT_insert_climb:
  assumes "binary_tree h depth t" and "typeof x \<in> set nodeTypes"
    and "length (imt_nodes t ! 0) < 2 ^ depth"
    and "climb h (imt_zeroes t) depth 0 x (length (imt_nodes t ! 0)) (imt_nodes t) = (r, nodes')"
  shows "IMT_insert t x = Inr (t\<lparr>imt_nodes := nodes'[depth := js_set (nodes' ! depth) 0 r]\<rparr>)"
proof -
  have "recompute (pureHash h) 2 (imt_zeroes t) depth 0 x (length (imt_nodes t ! 0)) (imt_nodes t)
          = Inr (r, nodes')"
    using assms(1,4) by (subst recompute_climb [where n = depth]) (auto simp: binary_tree_def)
  then show ?thesis
    using assms(1,2,3) node_type_defined [OF assms(2)]
    by (simp add: IMT_insert_def insert_leaf_def set_root_def binary_tree_def checkParameter1_ok)
qed

lemma IMT_insert_ok:
  assumes "binary_tree h depth t" and "typeof x \<in> set nodeTypes"
    and "length (imt_nodes t ! 0) < 2 ^ depth"
  shows "\<exists>t'. IMT_insert t x = Inr t' \<and> binary_tree h depth t'
            \<and> imt_nodes t' ! 0 = imt_nodes t ! 0 @ [x] \<and> imt_zeroes t' = imt_zeroes t"
proof -
  obtain r nodes' where
    c: "climb h (imt_zeroes t) depth 0 x (length (imt_nodes t ! 0)) (imt_nodes t) = (r, nodes')"
    by (cases "climb h (imt_zeroes t) depth 0 x (length (imt_nodes t ! 0)) (imt_nodes t)")
  have d: "0 < depth" and len: "length (imt_nodes t) = depth + 1"
    using assms(1) by (auto simp: binary_tree_def)
  have "0 + depth \<le> length (imt_nodes t)" using len by simp
  note fr = climb_frame [OF this c]
  have "nodes' ! 0 = imt_nodes t ! 0 @ [x]" using fr d by (simp add: js_set_append)
  then show ?thesis
    using IMT_insert_climb [OF assms c] assms(1) fr d by (simp add: binary_tree_def)
qed

lemma IMT_insert_proof:
  assumes "binary_tree h depth t" and "typeof x \<in> set nodeTypes"
    and "length (imt_nodes t ! 0) < 2 ^ depth"
    and "\<forall>cs. typeof (h cs) \<in> set nodeTypes"
    and "IMT_insert t x = Inr t'"
  shows "\<exists>p. IMT_createProof t' (int (length (imt_nodes t ! 0))) = Inr p
            \<and> leaf p = x \<and> root p = IMT_root t'
            \<and> IMT_verifyProof E t' (proof_object p) = Inr True"
proof -
  let ?n = "length (imt_nodes t ! 0)"
  obtain r nodes' where
    c: "climb h (imt_zeroes t) depth 0 x ?n (imt_nodes t) = (r, nodes')"
    by (cases "climb h (imt_zeroes t) depth 0 x ?n (imt_nodes t)")
  have d: "0 < depth" and len: "length (imt_nodes t) = depth + 1"
    and ar: "imt_arity t = 2" and dp: "imt_depth t = depth" and hs: "imt_hash t = pureHash h"
    using assms(1) by (auto simp: binary_tree_def)
  let ?final = "nodes'[depth := js_set (nodes' ! depth) 0 r]"
  have t': "t' = t\<lparr>imt_nodes := ?final\<rparr>"
    using IMT_insert_climb [OF assms(1,2,3) c] assms(5) by simp
  have "0 + depth \<le> length (imt_nodes t)" using len by simp
  note fr = climb_frame [OF this c]
  have len': "length nodes' = depth + 1" using fr len by simp
  have row0: "?final ! 0 = imt_nodes t ! 0 @ [x]" using fr d by (simp add: js_set_append)
  have rt: "IMT_root t' = r"
    using len' by (simp add: t' IMT_root_def dp js_get_def length_js_set js_set_nth_same)
  obtain m where m: "depth = Suc m" using d by (cases depth) auto
  have "\<exists>cs. r = h cs" using climb_result_hash [of h "imt_zeroes t" m 0 x ?n "imt_nodes t"] c m
    by simp
  then have tr: "typeof r \<in> set nodeTypes" using assms(4) by auto
  let ?path = "proof_loop 2 (imt_zeroes t) depth 0 ?n ?final"
  let ?p = "\<lparr> root = r, leaf = x,
              pathIndices = map (\<lambda>(position, window). int position) ?path,
              siblings = map (\<lambda>(position, window). Window window) ?path \<rparr>"
  have cp: "IMT_createProof t' (int ?n) = Inr ?p"
    by (simp add: IMT_createProof_def createProof_def t' dp ar row0 rt [unfolded t'] Let_def)
  have "0 + depth = depth" by simp
  moreover have "depth \<le> length (imt_nodes t)" using len by simp
  moreover have "\<forall>j. 0 \<le> j \<and> j < depth \<longrightarrow> ?final ! j = nodes' ! j" by simp
  ultimately have v: "verify_loop E (pureHash h) (siblings ?p)
                        (Items (map Number (pathIndices ?p))) x = Inr r"
    using climb_verify [of 0 depth depth "imt_nodes t" h "imt_zeroes t" x ?n r nodes' ?final E] c
    by simp
  have "IMT_verifyProof E t' (proof_object ?p) = Inr True"
    using v tr node_type_defined [OF tr] node_type_defined [OF assms(2)] assms(2)
    by (simp add: IMT_verifyProof_def verifyProof_def proof_object_def checkProperty_def
          t' hs checkParameter1_ok)
  then show ?thesis using cp rt by simp
qed

lemma insert_each_append:
  "insert_each t (xs @ [x]) =
     (case insert_each t xs of Inl e \<Rightarrow> Inl e | Inr t1 \<Rightarrow> IMT_insert t1 x)"
  by (induction xs arbitrary: t) (auto split: sum.splits)

lemma insert_each_ok:
  assumes "binary_tree h depth t" and "\<forall>x \<in> set xs. typeof x \<in> set nodeTypes"
    and "length (imt_nodes t ! 0) + length xs \<le> 2 ^ depth"
  shows "\<exists>t'. insert_each t xs = Inr t' \<and> binary_tree h depth t'
            \<and> imt_nodes t' ! 0 = imt_nodes t ! 0 @ xs \<and> imt_zeroes t' = imt_zeroes t"
  using assms
proof (induction xs arbitrary: t)
  case Nil
  then show ?case by simp
next
  case (Cons x xs)
  have "length (imt_nodes t ! 0) < 2 ^ depth" using Cons.prems(3) by simp
  from IMT_insert_ok [OF Cons.prems(1) _ this, of x] Cons.prems(2)
  obtain t1 where t1: "IMT_insert t x = Inr t1" "binary_tree h depth t1"
    "imt_nodes t1 ! 0 = imt_nodes t ! 0 @ [x]" "imt_zeroes t1 = imt_zeroes t"
    by auto
  have "\<exists>t'. insert_each t1 xs = Inr t' \<and> binary_tree h depth t'
            \<and> imt_nodes t' ! 0 = imt_nodes t1 ! 0 @ xs \<and> imt_zeroes t' = imt_zeroes t1"
    using Cons.prems t1 by (intro Cons.IH) auto
  then show ?case using t1 by auto
qed

text \<open>
  C3. Take a tree built by the constructor from any initial leaves, and a sequence of
  leaves that still fits into its capacity \<open>2 ^ depth\<close>. For every prefix of the sequence:
  after the leaves of the prefix have been inserted one at a time, \<open>createProof\<close> at the
  index of the leaf inserted last returns a proof of that leaf against the current root,
  and \<open>verifyProof\<close> of this proof returns \<open>true\<close>. The leaves are values that \<open>insert\<close>
  accepts (number, string or bigint) and the hash function returns such values.
\<close>

theorem insert_createProof_verifyProof:
  assumes "1 \<le> depth" and "depth \<le> 32" and "typeof zeroValue \<in> set nodeTypes"
    and "\<forall>cs. typeof (h cs) \<in> set nodeTypes"
    and "\<forall>x \<in> set leaves. typeof x \<in> set nodeTypes"
    and "length init + length leaves \<le> 2 ^ depth"
    and "n < length leaves"
  shows "\<exists>t0 t p. IncrementalMerkleTree (pureHash h) depth zeroValue 2 init = Inr t0
           \<and> insert_each t0 (take (Suc n) leaves) = Inr t
           \<and> IMT_createProof t (int (length init + n)) = Inr p
           \<and> leaf p = leaves ! n
           \<and> root p = IMT_root t
           \<and> IMT_verifyProof E t (proof_object p) = Inr True"
proof -
  have "length init \<le> 2 ^ depth" using assms(6) by simp
  from constructed_binary [OF assms(1,2,3) this, of h]
  obtain t0 where t0: "IncrementalMerkleTree (pureHash h) depth zeroValue 2 init = Inr t0"
    "binary_tree h depth t0" "imt_nodes t0 ! 0 = init"
    by auto
  have ty: "\<forall>x \<in> set (take n leaves). typeof x \<in> set nodeTypes"
    using assms(5) by (meson in_set_takeD)
  have "length (imt_nodes t0 ! 0) + length (take n leaves) \<le> 2 ^ depth"
    using assms(6,7) t0(3) by simp
  from insert_each_ok [OF t0(2) ty this]
  obtain t1 where t1: "insert_each t0 (take n leaves) = Inr t1" "binary_tree h depth t1"
    "imt_nodes t1 ! 0 = init @ take n leaves"
    using t0(3) by auto
  have tx: "typeof (leaves ! n) \<in> set nodeTypes" using assms(5,7) by simp
  have room: "length (imt_nodes t1 ! 0) < 2 ^ depth" using t1(3) assms(6,7) by simp
  from IMT_insert_ok [OF t1(2) tx room]
  obtain t where t: "IMT_insert t1 (leaves ! n) = Inr t" by auto
  have tk: "take (Suc n) leaves = take n leaves @ [leaves ! n]"
    using assms(7) by (simp add: take_Suc_conv_app_nth)
  have ie: "insert_each t0 (take (Suc n) leaves) = Inr t"
    by (simp add: tk insert_each_append t1(1) t)
  from IMT_insert_proof [OF t1(2) tx room assms(4) t, of E]
  obtain p where "IMT_createProof t (int (length (imt_nodes t1 ! 0))) = Inr p"
    "leaf p = leaves ! n" "root p = IMT_root t"
    "IMT_verifyProof E t (proof_object p) = Inr True"
    by auto
  then show ?thesis using t0(1) ie t1(3) assms(7) by auto
qed

theorem insert_createProof_verifyProof_witness:
  "\<exists>t0 t p. IncrementalMerkleTree (pureHash sample_h) 2 (Big 0) 2 [Big 4] = Inr t0
      \<and> insert_each t0 [Big 5, Big 6] = Inr t
      \<and> IMT_createProof t 2 = Inr p \<and> leaf p = Big 6
      \<and> IMT_verifyProof sample_env t (proof_object p) = Inr True"
proof -
  have h: "\<forall>cs. typeof (sample_h cs) \<in> set nodeTypes" by (simp add: sample_h_def)
  have "(1::nat) \<le> 2" "(2::nat) \<le> 32" "typeof (Big 0) \<in> set nodeTypes"
    "\<forall>x \<in> set [Big 5, Big 6, Big 7]. typeof x \<in> set nodeTypes"
    "length [Big 4] + length [Big 5, Big 6, Big 7] \<le> (2::nat) ^ 2"
    "1 < length [Big 5, Big 6, Big 7]"
    by simp_all
  from insert_createProof_verifyProof [OF this(1,2,3) h this(4,5,6), where E = sample_env]
  show ?thesis by auto
qed

section \<open>Bulk construction and insertion build the same rows\<close>

lemma pair_at_js_set_other:
  assumes "i \<le> length row" and "k \<noteq> i div 2"
  shows "pair_at (js_set row i v) z k = pair_at row z k"
proof -
  have n1: "2 * k \<noteq> i" and n2: "2 * k + 1 \<noteq> i" using assms(2) by auto
  have g: "(if j < length (js_set row i v) then js_set row i v ! j else z) =
           (if j < length row then row ! j else z)" if "j \<noteq> i" for j
  proof (cases "i < length row")
    case True
    then show ?thesis using that by (simp add: js_set_def)
  next
    case False
    then have "i = length row" using assms(1) by simp
    then show ?thesis using that by (auto simp: js_set_append nth_append)
  qed
  show ?thesis
    unfolding pair_at_def using g [OF n1] g [OF n2] by simp
qed

lemma length_level_above: "length (level_above h z row) = (length row + 1) div 2"
  by (simp add: level_above_def)

lemma level_above_nth:
  "k < (length row + 1) div 2 \<Longrightarrow> level_above h z row ! k = h (pair_at row z k)"
  by (simp add: level_above_def)

lemma half_max: "i \<le> n \<Longrightarrow> (max n (Suc i) + 1) div 2 = max ((n + 1) div 2) (Suc (i div 2))"
  for i n :: nat
  by (auto simp: max_def)

lemma level_above_js_set:
  assumes "i \<le> length row"
  shows "level_above h z (js_set row i v) =
           js_set (level_above h z row) (i div 2) (h (pair_at (js_set row i v) z (i div 2)))"
    (is "?L = ?R")
proof (rule nth_equalityI)
  have a: "(max (length row) (Suc i) + 1) div 2 = max ((length row + 1) div 2) (Suc (i div 2))"
    using assms by (auto simp: max_def)
  show len: "length ?L = length ?R"
    by (simp add: length_level_above length_js_set a)
  fix k assume "k < length ?L"
  then have k: "k < (length (js_set row i v) + 1) div 2" by (simp add: length_level_above)
  then have kL: "?L ! k = h (pair_at (js_set row i v) z k)" by (rule level_above_nth)
  show "?L ! k = ?R ! k"
  proof (cases "k = i div 2")
    case True
    then show ?thesis using kL by (simp add: js_set_nth_same)
  next
    case False
    have "k < max ((length row + 1) div 2) (Suc (i div 2))"
      using k a by (simp add: length_js_set)
    moreover have "i div 2 \<le> (length row + 1) div 2" using assms by auto
    ultimately have kr: "k < (length row + 1) div 2"
      using False by (auto simp: max_def split: if_splits)
    then have "?R ! k = level_above h z row ! k"
      using False by (simp add: js_set_nth_other length_level_above)
    also have "\<dots> = h (pair_at row z k)" using kr by (rule level_above_nth)
    finally show ?thesis using kL pair_at_js_set_other [OF assms False] by simp
  qed
qed

lemma climb_consistent:
  assumes "level + n = depth" and "depth < length nodes"
    and "0 < n \<longrightarrow> index \<le> length (nodes ! level)"
    and "consistent h zs depth nodes level"
    and "climb h zs n level node index nodes = (r, nodes')"
  shows "consistent h zs depth nodes' level
         \<and> (0 < n \<longrightarrow> r = h (pair_at (nodes' ! (depth - 1)) (zs ! (depth - 1)) (index div 2 ^ n)))"
  using assms
proof (induction n arbitrary: level node index nodes)
  case 0
  then show ?case by simp
next
  case (Suc n)
  let ?row = "js_set (nodes ! level) index node"
  let ?nodes1 = "nodes[level := ?row]"
  let ?node1 = "h (pair_at ?row (zs ! level) (index div 2))"
  from Suc.prems have lt: "level < depth" and lv: "level < length nodes"
    and ix: "index \<le> length (nodes ! level)" by auto
  from Suc.prems have c: "climb h zs n (Suc level) ?node1 (index div 2) ?nodes1 = (r, nodes')"
    by simp
  have d1: "Suc level + n = depth" using Suc.prems by simp
  have d2: "depth < length ?nodes1" using Suc.prems by simp
  have cons1: "consistent h zs depth ?nodes1 (Suc level)"
    using Suc.prems(4) by (auto simp: consistent_def)
  have ix1: "0 < n \<longrightarrow> index div 2 \<le> length (?nodes1 ! Suc level)"
  proof
    assume "0 < n"
    then have "Suc level < depth" using d1 by simp
    then have "nodes ! Suc level = level_above h (zs ! level) (nodes ! level)"
      using Suc.prems(4) by (simp add: consistent_def)
    then have "length (?nodes1 ! Suc level) = (length (nodes ! level) + 1) div 2"
      by (simp add: length_level_above)
    then show "index div 2 \<le> length (?nodes1 ! Suc level)" using ix by auto
  qed
  note ih = Suc.IH [OF d1 d2 ix1 cons1 c]
  have "Suc level + n \<le> length ?nodes1" using d1 d2 by simp
  note fr = climb_frame [OF this c]
  have here: "nodes' ! level = ?row" using fr lv by simp
  have cons: "consistent h zs depth nodes' level"
    unfolding consistent_def
  proof (intro allI impI)
    fix l assume l: "level \<le> l \<and> Suc l < depth"
    show "nodes' ! Suc l = level_above h (zs ! l) (nodes' ! l)"
    proof (cases "l = level")
      case True
      then have n0: "0 < n" using l d1 by simp
      then have "nodes' ! Suc level = js_set (?nodes1 ! Suc level) (index div 2) ?node1"
        using fr by simp
      also have "?nodes1 ! Suc level = level_above h (zs ! level) (nodes ! level)"
        using Suc.prems(4) l True by (simp add: consistent_def)
      also have "js_set (level_above h (zs ! level) (nodes ! level)) (index div 2) ?node1 =
                 level_above h (zs ! level) ?row"
        using level_above_js_set [OF ix] by simp
      finally show ?thesis using True here by simp
    next
      case False
      then show ?thesis using ih l by (simp add: consistent_def)
    qed
  qed
  have res: "r = h (pair_at (nodes' ! (depth - 1)) (zs ! (depth - 1)) (index div 2 ^ Suc n))"
  proof (cases n)
    case 0
    then have "depth - 1 = level" and "r = ?node1" and "nodes' = ?nodes1"
      using d1 c by auto
    then show ?thesis using lv 0 by simp
  next
    case (Suc m)
    then have "0 < n" by simp
    with ih have "r = h (pair_at (nodes' ! (depth - 1)) (zs ! (depth - 1)) (index div 2 div 2 ^ n))"
      by blast
    also have "index div 2 div 2 ^ n = index div 2 ^ Suc n"
      by (simp add: div_mult2_eq)
    finally show ?thesis .
  qed
  show ?case using cons res by simp
qed

lemma IMT_insert_inv:
  assumes "merkle_inv h depth t" and "typeof x \<in> set nodeTypes"
    and "length (imt_nodes t ! 0) < 2 ^ depth"
    and "IMT_insert t x = Inr t'"
  shows "merkle_inv h depth t'"
proof -
  let ?n = "length (imt_nodes t ! 0)"
  have bt: "binary_tree h depth t" using assms(1) by (simp add: merkle_inv_def)
  obtain r nodes' where
    c: "climb h (imt_zeroes t) depth 0 x ?n (imt_nodes t) = (r, nodes')"
    by (cases "climb h (imt_zeroes t) depth 0 x ?n (imt_nodes t)")
  have d: "0 < depth" and len: "length (imt_nodes t) = depth + 1" and dp: "imt_depth t = depth"
    using bt by (auto simp: binary_tree_def)
  let ?final = "nodes'[depth := js_set (nodes' ! depth) 0 r]"
  have t': "t' = t\<lparr>imt_nodes := ?final\<rparr>"
    using IMT_insert_climb [OF bt assms(2,3) c] assms(4) by simp
  from IMT_insert_ok [OF bt assms(2,3)] assms(4)
  have bt': "binary_tree h depth t'" and r0: "imt_nodes t' ! 0 = imt_nodes t ! 0 @ [x]"
    by auto
  have "0 + depth \<le> length (imt_nodes t)" using len by simp
  note fr = climb_frame [OF this c]
  have len': "length nodes' = depth + 1" using fr len by simp
  have "0 + depth = depth" "depth < length (imt_nodes t)" "0 < depth \<longrightarrow> ?n \<le> length (imt_nodes t ! 0)"
    using len by auto
  from climb_consistent [OF this _ c] assms(1) d
  have cons: "consistent h (imt_zeroes t) depth nodes' 0"
    and r: "r = h (pair_at (nodes' ! (depth - 1)) (imt_zeroes t ! (depth - 1)) (?n div 2 ^ depth))"
    by (auto simp: merkle_inv_def)
  have cons': "consistent h (imt_zeroes t') depth (imt_nodes t') 0"
    using cons by (simp add: t' consistent_def)
  have rt: "IMT_root t' = r"
    using len' by (simp add: t' IMT_root_def dp js_get_def length_js_set js_set_nth_same)
  have "?n div 2 ^ depth = 0" using assms(3) by simp
  then have "IMT_root t' = h (pair_at (imt_nodes t' ! (depth - 1)) (imt_zeroes t' ! (depth - 1)) 0)"
    using rt r d by (simp add: t')
  then show ?thesis using bt' cons' by (simp add: merkle_inv_def)
qed

lemma insert_each_inv:
  assumes "merkle_inv h depth t" and "\<forall>x \<in> set xs. typeof x \<in> set nodeTypes"
    and "length (imt_nodes t ! 0) + length xs \<le> 2 ^ depth"
    and "insert_each t xs = Inr t'"
  shows "merkle_inv h depth t'"
  using assms
proof (induction xs arbitrary: t)
  case Nil
  then show ?case by simp
next
  case (Cons x xs)
  have bt: "binary_tree h depth t" using Cons.prems(1) by (simp add: merkle_inv_def)
  have room: "length (imt_nodes t ! 0) < 2 ^ depth" using Cons.prems(3) by simp
  have tx: "typeof x \<in> set nodeTypes" using Cons.prems(2) by simp
  from IMT_insert_ok [OF bt tx room]
  obtain t1 where t1: "IMT_insert t x = Inr t1" "imt_nodes t1 ! 0 = imt_nodes t ! 0 @ [x]"
    by auto
  have i1: "merkle_inv h depth t1" by (rule IMT_insert_inv [OF Cons.prems(1) tx room t1(1)])
  show ?case
    using Cons.prems t1 by (intro Cons.IH [OF i1]) auto
qed

lemma empty_tree_inv:
  assumes "1 \<le> depth" "depth \<le> 32" "typeof zeroValue \<in> set nodeTypes"
    and "IncrementalMerkleTree (pureHash h) depth zeroValue 2 [] = Inr t"
  shows "merkle_inv h depth t"
proof -
  have "consistent h zs depth (replicate depth [] @ [[z]]) 0" for zs z
    by (simp add: consistent_def nth_append level_above_def)
  then show ?thesis
    using assms(1,4) unfolding empty_tree [OF assms(1,2,3)]
    by (auto simp: merkle_inv_def binary_tree_def nth_append)
qed

lemma rows_from_nth_Suc:
  "l < length zs \<Longrightarrow>
   rows_from h zs row ! Suc l = row_above h (zs ! l) (rows_from h zs row ! l)"
proof (induction zs arbitrary: row l)
  case Nil
  then show ?case by simp
next
  case (Cons z zs)
  show ?case
  proof (cases l)
    case 0
    then show ?thesis by (simp add: rows_from_0)
  next
    case (Suc m)
    then show ?thesis using Cons.IH [of m "row_above h z row"] Cons.prems by simp
  qed
qed

lemma row_above_level_above:
  assumes "\<forall>v \<in> set row. \<not> nullish v"
  shows "row_above h z row = level_above h z row"
proof -
  have g: "coalesce (js_get row j) z = (if j < length row then row ! j else z)" for j
    using assms by (auto simp: coalesce_def js_get_def nullish_def)
  show ?thesis
    by (simp add: row_above_def level_above_def pair_at_def g mult.commute)
qed

lemma row_above_not_nullish:
  "\<forall>cs. \<not> nullish (h cs) \<Longrightarrow> \<forall>v \<in> set (row_above h z row). \<not> nullish v"
  by (auto simp: row_above_def)

lemma rows_from_not_nullish:
  assumes "\<forall>cs. \<not> nullish (h cs)"
  shows "\<forall>v \<in> set row. \<not> nullish v \<Longrightarrow> l \<le> length zs \<Longrightarrow>
         \<forall>v \<in> set (rows_from h zs row ! l). \<not> nullish v"
proof (induction zs arbitrary: row l)
  case Nil
  then show ?case by simp
next
  case (Cons z zs)
  show ?case
  proof (cases l)
    case 0
    then show ?thesis using Cons.prems by simp
  next
    case (Suc m)
    then show ?thesis
      using Cons.IH [OF row_above_not_nullish [OF assms], of m z row] Cons.prems by simp
  qed
qed

lemma rows_from_nonempty:
  "row \<noteq> [] \<Longrightarrow> l \<le> length zs \<Longrightarrow> rows_from h zs row ! l \<noteq> []"
proof (induction zs arbitrary: row l)
  case Nil
  then show ?case by simp
next
  case (Cons z zs)
  have "row_above h z row \<noteq> []"
    using Cons.prems(1) by (cases row) (simp_all add: row_above_def)
  then show ?case
    using Cons.IH [of "row_above h z row"] Cons.prems by (cases l) simp_all
qed

lemma bulk_tree_inv:
  assumes "1 \<le> depth" "depth \<le> 32" "typeof zeroValue \<in> set nodeTypes"
    and "length leaves \<le> 2 ^ depth"
    and "\<forall>cs. \<not> nullish (h cs)" and "\<forall>x \<in> set leaves. \<not> nullish x" and "leaves \<noteq> []"
    and "IncrementalMerkleTree (pureHash h) depth zeroValue 2 leaves = Inr t"
  shows "merkle_inv h depth t"
proof -
  let ?zs = "map (zero_at h zeroValue) [0..<depth]"
  let ?rows = "rows_from h ?zs leaves"
  have t: "t = \<lparr> imt_hash = pureHash h, imt_depth = depth, imt_zeroes = ?zs,
                 imt_nodes = ?rows, imt_arity = 2 \<rparr>"
    using assms(8) assms(7) unfolding constructed_tree [OF assms(1,2,3,4)] by simp
  have step: "?rows ! Suc l = level_above h (?zs ! l) (?rows ! l)" if "l < depth" for l
  proof -
    have "?rows ! Suc l = row_above h (?zs ! l) (?rows ! l)"
      using that by (intro rows_from_nth_Suc) simp
    moreover have "\<forall>v \<in> set (?rows ! l). \<not> nullish v"
      using that by (intro rows_from_not_nullish [OF assms(5,6)]) simp
    ultimately show ?thesis by (simp add: row_above_level_above)
  qed
  have bt: "binary_tree h depth t"
    using assms(1) by (simp add: t binary_tree_def length_rows_from)
  have cons: "consistent h (imt_zeroes t) depth (imt_nodes t) 0"
    unfolding consistent_def
  proof (intro allI impI)
    fix l assume "0 \<le> l \<and> Suc l < depth"
    then have "l < depth" by simp
    from step [OF this] show "imt_nodes t ! Suc l = level_above h (imt_zeroes t ! l) (imt_nodes t ! l)"
      by (simp add: t)
  qed
  have ne: "?rows ! (depth - 1) \<noteq> []"
    by (intro rows_from_nonempty [OF assms(7)]) simp
  have "?rows ! depth = level_above h (?zs ! (depth - 1)) (?rows ! (depth - 1))"
    using step [of "depth - 1"] assms(1) by simp
  moreover have "0 < (length (?rows ! (depth - 1)) + 1) div 2"
    using ne by (cases "?rows ! (depth - 1)") simp_all
  ultimately have "js_get (?rows ! depth) 0 =
      h (pair_at (?rows ! (depth - 1)) (?zs ! (depth - 1)) 0)"
    by (simp add: js_get_def length_level_above level_above_nth)
  then have "IMT_root t = h (pair_at (imt_nodes t ! (depth - 1)) (imt_zeroes t ! (depth - 1)) 0)"
    by (simp add: t IMT_root_def)
  then show ?thesis using bt cons by (simp add: merkle_inv_def)
qed

lemma merkle_inv_rows:
  assumes "merkle_inv h depth t1" and "merkle_inv h depth t2"
    and "imt_zeroes t1 = imt_zeroes t2" and "imt_nodes t1 ! 0 = imt_nodes t2 ! 0"
  shows "l < depth \<Longrightarrow> imt_nodes t1 ! l = imt_nodes t2 ! l"
proof (induction l)
  case 0
  show ?case by (rule assms(4))
next
  case (Suc l)
  then have "imt_nodes t1 ! l = imt_nodes t2 ! l" by simp
  moreover have "imt_nodes t1 ! Suc l = level_above h (imt_zeroes t1 ! l) (imt_nodes t1 ! l)"
    using assms(1) Suc.prems by (simp add: merkle_inv_def consistent_def)
  moreover have "imt_nodes t2 ! Suc l = level_above h (imt_zeroes t2 ! l) (imt_nodes t2 ! l)"
    using assms(2) Suc.prems by (simp add: merkle_inv_def consistent_def)
  ultimately show ?case using assms(3) by simp
qed

lemma merkle_inv_root:
  assumes "merkle_inv h depth t1" and "merkle_inv h depth t2"
    and "imt_zeroes t1 = imt_zeroes t2" and "imt_nodes t1 ! 0 = imt_nodes t2 ! 0"
    and "imt_nodes t1 ! 0 \<noteq> []"
  shows "IMT_root t1 = IMT_root t2"
proof -
  have "1 \<le> depth" using assms(1) by (simp add: merkle_inv_def binary_tree_def)
  then have "imt_nodes t1 ! (depth - 1) = imt_nodes t2 ! (depth - 1)"
    by (intro merkle_inv_rows [OF assms(1,2,3,4)]) simp
  then show ?thesis
    using assms by (simp add: merkle_inv_def)
qed

text \<open>
  C2. For every hash function that returns a value other than \<open>null\<close> and \<open>undefined\<close>,
  every depth between 1 and 32, every zero value and every list of at most \<open>2 ^ depth\<close>
  leaves of the kinds \<open>insert\<close> accepts: the constructor called with all the leaves and the
  constructor called without leaves followed by one \<open>insert\<close> per leaf, in order, both
  return, and the two trees have the same leaves and the same root.
\<close>

theorem bulk_root_eq_insert_root:
  assumes "1 \<le> depth" and "depth \<le> 32" and "typeof zeroValue \<in> set nodeTypes"
    and "\<forall>cs. \<not> nullish (h cs)"
    and "\<forall>x \<in> set leaves. typeof x \<in> set nodeTypes"
    and "length leaves \<le> 2 ^ depth"
  shows "\<exists>bulk empty step.
           IncrementalMerkleTree (pureHash h) depth zeroValue 2 leaves = Inr bulk
           \<and> IncrementalMerkleTree (pureHash h) depth zeroValue 2 [] = Inr empty
           \<and> insert_each empty leaves = Inr step
           \<and> IMT_leaves step = IMT_leaves bulk
           \<and> IMT_root step = IMT_root bulk"
proof (cases "leaves = []")
  case True
  from constructed_binary [OF assms(1,2,3), of "[]" h]
  obtain t where "IncrementalMerkleTree (pureHash h) depth zeroValue 2 [] = Inr t" by auto
  then show ?thesis using True by simp
next
  case False
  from constructed_binary [OF assms(1,2,3,6), of h]
  obtain bulk where b: "IncrementalMerkleTree (pureHash h) depth zeroValue 2 leaves = Inr bulk"
    "imt_nodes bulk ! 0 = leaves" "imt_zeroes bulk = map (zero_at h zeroValue) [0..<depth]"
    by auto
  from constructed_binary [OF assms(1,2,3), of "[]" h]
  obtain empty where e: "IncrementalMerkleTree (pureHash h) depth zeroValue 2 [] = Inr empty"
    "binary_tree h depth empty" "imt_nodes empty ! 0 = []"
    "imt_zeroes empty = map (zero_at h zeroValue) [0..<depth]"
    by auto
  have room: "length (imt_nodes empty ! 0) + length leaves \<le> 2 ^ depth"
    using e(3) assms(6) by simp
  from insert_each_ok [OF e(2) assms(5) room]
  obtain step where s: "insert_each empty leaves = Inr step"
    "imt_nodes step ! 0 = leaves" "imt_zeroes step = imt_zeroes empty"
    using e(3) by auto
  have nn: "\<forall>x \<in> set leaves. \<not> nullish x"
    using assms(5) by (auto simp: nullish_def)
  have ib: "merkle_inv h depth bulk"
    by (rule bulk_tree_inv [OF assms(1,2,3,6,4) nn False b(1)])
  have ie: "merkle_inv h depth empty"
    by (rule empty_tree_inv [OF assms(1,2,3) e(1)])
  have ist: "merkle_inv h depth step"
    by (rule insert_each_inv [OF ie assms(5) room s(1)])
  have "IMT_root step = IMT_root bulk"
    using merkle_inv_root [OF ist ib] s b e(4) False by simp
  then show ?thesis using b e s by (simp add: IMT_leaves_def)
qed

theorem bulk_root_eq_insert_root_witness:
  "IMT_root (projr (insert_each (projr (IncrementalMerkleTree (pureHash sample_h) 2 (Big 0) 2 []))
                      [Big 5, Big 6, Big 7]))
     = IMT_root (projr (IncrementalMerkleTree (pureHash sample_h) 2 (Big 0) 2 [Big 5, Big 6, Big 7]))"
proof -
  have h: "\<forall>cs. \<not> nullish (sample_h cs)" by (simp add: sample_h_def nullish_def)
  have "(1::nat) \<le> 2" "(2::nat) \<le> 32" "typeof (Big 0) \<in> set nodeTypes"
    "\<forall>x \<in> set [Big 5, Big 6, Big 7]. typeof x \<in> set nodeTypes"
    "length [Big 5, Big 6, Big 7] \<le> (2::nat) ^ 2"
    by simp_all
  from bulk_root_eq_insert_root [OF this(1,2,3) h this(4,5)]
  show ?thesis by auto
qed

section \<open>The shape of a tree and the frame of update\<close>

lemma div_pow_Suc: "i div 2 ^ Suc k = i div 2 ^ k div 2" for i :: nat
  by (simp only: power_Suc2 div_mult2_eq)

lemma path_index_le:
  assumes "\<forall>l. Suc l < depth \<longrightarrow> length (rows ! Suc l) = (length (rows ! l) + 1) div 2"
    and "i \<le> length (rows ! 0)"
  shows "k < depth \<Longrightarrow> i div 2 ^ k \<le> length (rows ! k)"
proof (induction k)
  case 0
  then show ?case using assms(2) by simp
next
  case (Suc k)
  then have "i div 2 ^ k \<le> length (rows ! k)" by simp
  then have "i div 2 ^ k div 2 \<le> (length (rows ! k) + 1) div 2" by auto
  then show ?case using assms(1) Suc.prems unfolding div_pow_Suc by simp
qed

lemma path_index_less:
  assumes "\<forall>l. Suc l < depth \<longrightarrow> length (rows ! Suc l) = (length (rows ! l) + 1) div 2"
    and "i < length (rows ! 0)"
  shows "k < depth \<Longrightarrow> i div 2 ^ k < length (rows ! k)"
proof (induction k)
  case 0
  then show ?case using assms(2) by simp
next
  case (Suc k)
  then have "i div 2 ^ k < length (rows ! k)" by simp
  then have "i div 2 ^ k div 2 < (length (rows ! k) + 1) div 2" by auto
  then show ?case using assms(1) Suc.prems unfolding div_pow_Suc by simp
qed

lemma path_shape:
  assumes sh: "\<forall>l. Suc l < depth \<longrightarrow> length (rows ! Suc l) = (length (rows ! l) + 1) div 2"
    and pth: "\<forall>k < depth. \<exists>v. rows' ! k = js_set (rows ! k) (i div 2 ^ k) v"
    and i: "i \<le> length (rows ! 0)"
  shows "\<forall>l. Suc l < depth \<longrightarrow> length (rows' ! Suc l) = (length (rows' ! l) + 1) div 2"
proof (intro allI impI)
  fix l assume l: "Suc l < depth"
  then have l': "l < depth" by simp
  have a: "length (rows' ! l) = max (length (rows ! l)) (Suc (i div 2 ^ l))"
    using pth l' by (auto simp: length_js_set)
  have b: "length (rows' ! Suc l) = max (length (rows ! Suc l)) (Suc (i div 2 ^ Suc l))"
    using pth l by (auto simp: length_js_set)
  have c: "i div 2 ^ l \<le> length (rows ! l)" by (rule path_index_le [OF sh i l'])
  have "length (rows' ! Suc l) = max ((length (rows ! l) + 1) div 2) (Suc (i div 2 ^ l div 2))"
    using b sh l by (simp only: div_pow_Suc)
  then show "length (rows' ! Suc l) = (length (rows' ! l) + 1) div 2"
    using a half_max [OF c] by simp
qed

lemma recompute_tree:
  assumes "binary_tree h depth t"
  shows "recompute (imt_hash t) (imt_arity t) (imt_zeroes t) (imt_depth t) 0 v i (imt_nodes t) =
           Inr (climb h (imt_zeroes t) depth 0 v i (imt_nodes t))"
  using assms by (simp add: binary_tree_def recompute_climb [where n = depth])

lemma IMT_insert_cases:
  assumes "binary_tree h depth t" and "IMT_insert t x = Inr t1"
  shows "typeof x \<in> set nodeTypes \<and> length (imt_nodes t ! 0) < 2 ^ depth"
  using assms
  by (auto simp: IMT_insert_def insert_leaf_def set_root_def checkParameter1_def binary_tree_def
      split: if_splits sum.splits)

lemma IMT_update_climb:
  assumes "binary_tree h depth t" and "0 \<le> i" and "i < int (length (imt_nodes t ! 0))"
    and "climb h (imt_zeroes t) depth 0 v (nat i) (imt_nodes t) = (r, nodes')"
  shows "IMT_update t i v = Inr (t\<lparr>imt_nodes := nodes'[depth := js_set (nodes' ! depth) 0 r]\<rparr>)"
  using assms recompute_tree [OF assms(1), of v "nat i"]
  by (simp add: IMT_update_def update_leaf_def set_root_def binary_tree_def)

lemma IMT_update_cases:
  assumes "IMT_update t i v = Inr t1"
  shows "0 \<le> i \<and> i < int (length (imt_nodes t ! 0))"
  using assms
  by (auto simp: IMT_update_def update_leaf_def set_root_def split: if_splits)

lemma IMT_delete_update:
  "IMT_delete t i = IMT_update t i (js_get (imt_zeroes t) 0)"
  by (simp add: IMT_delete_def IMT_update_def)

lemma climb_well_shaped:
  assumes bt: "binary_tree h depth t" and ws: "well_shaped depth t"
    and i: "i \<le> length (imt_nodes t ! 0)" and room: "i < 2 ^ depth"
    and c: "climb h (imt_zeroes t) depth 0 v i (imt_nodes t) = (r, nodes')"
    and t1: "t1 = t\<lparr>imt_nodes := nodes'[depth := js_set (nodes' ! depth) 0 r]\<rparr>"
  shows "binary_tree h depth t1 \<and> well_shaped depth t1
         \<and> imt_nodes t1 ! 0 = js_set (imt_nodes t ! 0) i v"
proof -
  have d: "0 < depth" and len: "length (imt_nodes t) = depth + 1"
    using bt by (auto simp: binary_tree_def)
  have "0 + depth \<le> length (imt_nodes t)" using len by simp
  note fr = climb_frame [OF this c]
  have len': "length nodes' = depth + 1" using fr len by simp
  have sh: "\<forall>l. Suc l < depth \<longrightarrow>
              length (imt_nodes t ! Suc l) = (length (imt_nodes t ! l) + 1) div 2"
    using ws by (simp add: well_shaped_def)
  have pth: "\<forall>k < depth. \<exists>v. nodes' ! k = js_set (imt_nodes t ! k) (i div 2 ^ k) v"
    using fr by simp
  have sh': "\<forall>l. Suc l < depth \<longrightarrow> length (nodes' ! Suc l) = (length (nodes' ! l) + 1) div 2"
    by (rule path_shape [OF sh pth i])
  have top: "nodes' ! depth = imt_nodes t ! depth" using fr by simp
  have r0: "nodes' ! 0 = js_set (imt_nodes t ! 0) i v" using fr d by simp
  have l0: "length (nodes' ! 0) \<le> 2 ^ depth"
    using ws room by (simp add: r0 length_js_set well_shaped_def)
  have b1: "binary_tree h depth t1" using bt len' by (simp add: t1 binary_tree_def)
  have w1: "well_shaped depth t1"
    using ws sh' top l0 d len' by (simp add: t1 well_shaped_def length_js_set)
  show ?thesis using b1 w1 r0 d by (simp add: t1)
qed

lemma built_well_shaped:
  assumes "IncrementalMerkleTree (pureHash h) depth zeroValue 2 leaves = Inr t"
  shows "binary_tree h depth t \<and> well_shaped depth t"
proof -
  have tz: "typeof zeroValue \<in> set nodeTypes"
    using assms by (auto simp: IncrementalMerkleTree_def checkParameter1_def split: if_splits)
  have z: "checkParameter1 zeroValue ''zeroValue'' nodeTypes = Inr ()"
    using tz node_type_defined [OF tz] by (simp add: checkParameter1_ok)
  have d: "1 \<le> depth" "depth \<le> 32" and n: "length leaves \<le> 2 ^ depth"
    using assms unfolding IncrementalMerkleTree_def z
    by (auto simp: maxDepth_def split: if_splits)
  let ?zs = "map (zero_at h zeroValue) [0..<depth]"
  show ?thesis
  proof (cases "leaves = []")
    case True
    then have "t = \<lparr> imt_hash = pureHash h, imt_depth = depth, imt_zeroes = ?zs,
                 imt_nodes = replicate depth [] @ [[zero_at h zeroValue depth]], imt_arity = 2 \<rparr>"
      using assms empty_tree [OF d tz, of h] by simp
    then show ?thesis using d by (simp add: binary_tree_def well_shaped_def nth_append)
  next
    case False
    let ?rows = "rows_from h ?zs leaves"
    have t: "t = \<lparr> imt_hash = pureHash h, imt_depth = depth, imt_zeroes = ?zs,
                 imt_nodes = ?rows, imt_arity = 2 \<rparr>"
      using assms False unfolding constructed_tree [OF d tz n] by simp
    have step: "length (?rows ! Suc l) = (length (?rows ! l) + 1) div 2" if "l < depth" for l
    proof -
      have "?rows ! Suc l = row_above h (?zs ! l) (?rows ! l)"
        using that by (intro rows_from_nth_Suc) simp
      then show ?thesis by (simp add: row_above_def)
    qed
    have bound: "length (?rows ! l) \<le> 2 ^ (depth - l)" if "l \<le> depth" for l
      using that
    proof (induction l)
      case 0
      then show ?case using n by (simp add: rows_from_0)
    next
      case (Suc l)
      then have "length (?rows ! l) \<le> 2 ^ (depth - l)" by simp
      moreover have "depth - l = Suc (depth - Suc l)" using Suc.prems by simp
      ultimately have "length (?rows ! l) \<le> 2 * 2 ^ (depth - Suc l)" by simp
      then have "(length (?rows ! l) + 1) div 2 \<le> 2 ^ (depth - Suc l)" by simp
      then show ?case using step [of l] Suc.prems by simp
    qed
    have "?rows ! depth \<noteq> []" by (intro rows_from_nonempty [OF False]) simp
    then have "0 < length (?rows ! depth)" by simp
    moreover have "length (?rows ! depth) \<le> 1" using bound [of depth] by simp
    ultimately have top: "length (?rows ! depth) = 1" by arith
    show ?thesis
      using d n top step by (simp add: t binary_tree_def well_shaped_def length_rows_from rows_from_0)
  qed
qed

lemma tree_state_inv:
  "tree_state h depth t \<Longrightarrow> binary_tree h depth t \<and> well_shaped depth t"
proof (induction rule: tree_state.induct)
  case (built zeroValue leaves t)
  then show ?case by (rule built_well_shaped)
next
  case (inserted t x t1)
  then have bt: "binary_tree h depth t" and ws: "well_shaped depth t" by auto
  let ?n = "length (imt_nodes t ! 0)"
  from IMT_insert_cases [OF bt inserted(2)]
  have tx: "typeof x \<in> set nodeTypes" and room: "?n < 2 ^ depth" by auto
  obtain r nodes' where c: "climb h (imt_zeroes t) depth 0 x ?n (imt_nodes t) = (r, nodes')"
    by (cases "climb h (imt_zeroes t) depth 0 x ?n (imt_nodes t)")
  have "t1 = t\<lparr>imt_nodes := nodes'[depth := js_set (nodes' ! depth) 0 r]\<rparr>"
    using IMT_insert_climb [OF bt tx room c] inserted(2) by simp
  from climb_well_shaped [OF bt ws _ room c this] show ?case by simp
next
  case (updated t i v t1)
  then have bt: "binary_tree h depth t" and ws: "well_shaped depth t" by auto
  from IMT_update_cases [OF updated(2)]
  have i: "0 \<le> i" "i < int (length (imt_nodes t ! 0))" by auto
  obtain r nodes' where c: "climb h (imt_zeroes t) depth 0 v (nat i) (imt_nodes t) = (r, nodes')"
    by (cases "climb h (imt_zeroes t) depth 0 v (nat i) (imt_nodes t)")
  have t1: "t1 = t\<lparr>imt_nodes := nodes'[depth := js_set (nodes' ! depth) 0 r]\<rparr>"
    using IMT_update_climb [OF bt i c] updated(2) by simp
  have il: "nat i < length (imt_nodes t ! 0)" using i by simp
  have "length (imt_nodes t ! 0) \<le> 2 ^ depth" using ws by (simp add: well_shaped_def)
  with il have i2: "nat i < 2 ^ depth" by (rule less_le_trans)
  have "nat i \<le> length (imt_nodes t ! 0)" using il by (rule less_imp_le)
  note this i2
  from climb_well_shaped [OF bt ws this c t1] show ?case by simp
next
  case (deleted t i t1)
  then have bt: "binary_tree h depth t" and ws: "well_shaped depth t" by auto
  let ?v = "js_get (imt_zeroes t) 0"
  have u: "IMT_update t i ?v = Inr t1" using deleted(2) by (simp add: IMT_delete_update)
  from IMT_update_cases [OF u]
  have i: "0 \<le> i" "i < int (length (imt_nodes t ! 0))" by auto
  obtain r nodes' where c: "climb h (imt_zeroes t) depth 0 ?v (nat i) (imt_nodes t) = (r, nodes')"
    by (cases "climb h (imt_zeroes t) depth 0 ?v (nat i) (imt_nodes t)")
  have t1: "t1 = t\<lparr>imt_nodes := nodes'[depth := js_set (nodes' ! depth) 0 r]\<rparr>"
    using IMT_update_climb [OF bt i c] u by simp
  have il: "nat i < length (imt_nodes t ! 0)" using i by simp
  have "length (imt_nodes t ! 0) \<le> 2 ^ depth" using ws by (simp add: well_shaped_def)
  with il have i2: "nat i < 2 ^ depth" by (rule less_le_trans)
  have "nat i \<le> length (imt_nodes t ! 0)" using il by (rule less_imp_le)
  note this i2
  from climb_well_shaped [OF bt ws this c t1] show ?case by simp
qed

text \<open>
  C10. In every tree that the constructor and the methods \<open>insert\<close>, \<open>update\<close> and \<open>delete\<close>
  can produce, \<open>update\<close> at a valid index \<open>i\<close> returns, and in the tree it returns the number
  of leaves is unchanged, the leaf at \<open>i\<close> is the new value, every other leaf is unchanged
  and, on every level \<open>l\<close> up to the root, the row has kept its length and differs from the
  old row at most at position \<open>i div 2 ^ l\<close>, the node on the path from leaf \<open>i\<close> to the root.
  \<open>delete\<close> is \<open>update\<close> with \<open>zeroes[0]\<close>.
\<close>

theorem update_frame:
  assumes "tree_state h depth t" and "0 \<le> i" and "i < int (length (IMT_leaves t))"
  shows "\<exists>t1. IMT_update t i v = Inr t1
           \<and> IMT_delete t i = IMT_update t i (imt_zeroes t ! 0)
           \<and> length (IMT_leaves t1) = length (IMT_leaves t)
           \<and> IMT_leaves t1 ! nat i = v
           \<and> (\<forall>j < length (IMT_leaves t). j \<noteq> nat i \<longrightarrow> IMT_leaves t1 ! j = IMT_leaves t ! j)
           \<and> (\<forall>l \<le> depth.
                 length (imt_nodes t1 ! l) = length (imt_nodes t ! l)
                 \<and> (\<forall>j < length (imt_nodes t ! l).
                       j \<noteq> nat i div 2 ^ l \<longrightarrow> imt_nodes t1 ! l ! j = imt_nodes t ! l ! j))
           \<and> imt_zeroes t1 = imt_zeroes t \<and> imt_depth t1 = imt_depth t"
proof -
  from tree_state_inv [OF assms(1)]
  have bt: "binary_tree h depth t" and ws: "well_shaped depth t" by auto
  have d: "0 < depth" and len: "length (imt_nodes t) = depth + 1"
    using bt by (auto simp: binary_tree_def)
  have i: "0 \<le> i" "i < int (length (imt_nodes t ! 0))"
    using assms(2,3) by (auto simp: IMT_leaves_def)
  then have il: "nat i < length (imt_nodes t ! 0)" by simp
  obtain r nodes' where c: "climb h (imt_zeroes t) depth 0 v (nat i) (imt_nodes t) = (r, nodes')"
    by (cases "climb h (imt_zeroes t) depth 0 v (nat i) (imt_nodes t)")
  let ?t1 = "t\<lparr>imt_nodes := nodes'[depth := js_set (nodes' ! depth) 0 r]\<rparr>"
  have u: "IMT_update t i v = Inr ?t1" by (rule IMT_update_climb [OF bt i c])
  have "0 + depth \<le> length (imt_nodes t)" using len by simp
  note fr = climb_frame [OF this c]
  have len': "length nodes' = depth + 1" using fr len by simp
  have sh: "\<forall>l. Suc l < depth \<longrightarrow>
              length (imt_nodes t ! Suc l) = (length (imt_nodes t ! l) + 1) div 2"
    using ws by (simp add: well_shaped_def)
  have below: "length (imt_nodes ?t1 ! l) = length (imt_nodes t ! l)
               \<and> (\<forall>j < length (imt_nodes t ! l).
                     j \<noteq> nat i div 2 ^ l \<longrightarrow> imt_nodes ?t1 ! l ! j = imt_nodes t ! l ! j)"
    if l: "l < depth" for l
  proof -
    obtain w where w: "nodes' ! l = js_set (imt_nodes t ! l) (nat i div 2 ^ l) w"
      using fr l by auto
    have "nat i div 2 ^ l < length (imt_nodes t ! l)" by (rule path_index_less [OF sh il l])
    then show ?thesis using l w by (simp add: js_set_def)
  qed
  have top: "length (imt_nodes ?t1 ! depth) = length (imt_nodes t ! depth)
               \<and> (\<forall>j < length (imt_nodes t ! depth).
                     j \<noteq> nat i div 2 ^ depth \<longrightarrow>
                     imt_nodes ?t1 ! depth ! j = imt_nodes t ! depth ! j)"
  proof -
    have "nodes' ! depth = imt_nodes t ! depth" using fr by simp
    moreover have "length (imt_nodes t ! depth) = 1" using ws by (simp add: well_shaped_def)
    moreover have "length (imt_nodes t ! 0) \<le> 2 ^ depth" using ws by (simp add: well_shaped_def)
    with il have "nat i < 2 ^ depth" by (rule less_le_trans)
    then have "nat i div 2 ^ depth = 0" by (rule div_less)
    ultimately show ?thesis using len' by (simp add: length_js_set)
  qed
  have all: "\<forall>l \<le> depth.
                 length (imt_nodes ?t1 ! l) = length (imt_nodes t ! l)
                 \<and> (\<forall>j < length (imt_nodes t ! l).
                       j \<noteq> nat i div 2 ^ l \<longrightarrow> imt_nodes ?t1 ! l ! j = imt_nodes t ! l ! j)"
  proof (intro allI impI)
    fix l assume "l \<le> depth"
    then consider "l < depth" | "l = depth" by linarith
    then show "length (imt_nodes ?t1 ! l) = length (imt_nodes t ! l)
                 \<and> (\<forall>j < length (imt_nodes t ! l).
                       j \<noteq> nat i div 2 ^ l \<longrightarrow> imt_nodes ?t1 ! l ! j = imt_nodes t ! l ! j)"
    proof cases
      case 1
      then show ?thesis by (rule below)
    next
      case 2
      then show ?thesis using top by simp
    qed
  qed
  have r0: "imt_nodes ?t1 ! 0 = (imt_nodes t ! 0)[nat i := v]"
    using fr d il by (simp add: js_set_def)
  have del: "IMT_delete t i = IMT_update t i (imt_zeroes t ! 0)"
    using ws d by (simp add: IMT_delete_update js_get_def well_shaped_def)
  have leaves: "length (IMT_leaves ?t1) = length (IMT_leaves t)"
    "IMT_leaves ?t1 ! nat i = v"
    "\<forall>j < length (IMT_leaves t). j \<noteq> nat i \<longrightarrow> IMT_leaves ?t1 ! j = IMT_leaves t ! j"
    using il unfolding IMT_leaves_def r0 by simp_all
  show ?thesis
    using u del leaves all by (intro exI [of _ ?t1]) simp
qed

theorem update_frame_witness:
  "\<exists>t t1. IncrementalMerkleTree (pureHash sample_h) 2 (Big 0) 2 [Big 5, Big 6, Big 7] = Inr t
      \<and> IMT_update t 1 (Big 9) = Inr t1
      \<and> length (IMT_leaves t1) = 3 \<and> IMT_leaves t1 ! 0 = Big 5 \<and> IMT_leaves t1 ! 1 = Big 9
      \<and> IMT_leaves t1 ! 2 = Big 7"
proof -
  from constructed_binary [of 2 "Big 0" "[Big 5, Big 6, Big 7]" sample_h]
  obtain t where t: "IncrementalMerkleTree (pureHash sample_h) 2 (Big 0) 2 [Big 5, Big 6, Big 7] = Inr t"
    "imt_nodes t ! 0 = [Big 5, Big 6, Big 7]"
    by auto
  have ts: "tree_state sample_h 2 t" by (rule tree_state.built [OF t(1)])
  have l: "IMT_leaves t = [Big 5, Big 6, Big 7]" using t(2) by (simp add: IMT_leaves_def)
  from update_frame [OF ts, of 1 "Big 9"] l
  obtain t1 where "IMT_update t 1 (Big 9) = Inr t1" "length (IMT_leaves t1) = 3"
    "IMT_leaves t1 ! 1 = Big 9"
    "\<forall>j < 3. j \<noteq> 1 \<longrightarrow> IMT_leaves t1 ! j = [Big 5, Big 6, Big 7] ! j"
    by auto
  then show ?thesis using t(1) by auto
qed

section \<open>verifyProof\<close>





















section \<open>The group\<close>

text \<open>What a successful run of the constructor guarantees, for any hash function.\<close>

lemma mapM_Inr:
  "mapM f xs = Inr ys \<Longrightarrow> length ys = length xs \<and> (\<forall>k < length xs. f (xs ! k) = Inr (ys ! k))"
proof (induction xs arbitrary: ys)
  case Nil
  then show ?case by simp
next
  case (Cons x xs)
  then obtain y ys' where y: "f x = Inr y" "mapM f xs = Inr ys'" "ys = y # ys'"
    by (auto split: sum.splits)
  from Cons.IH [OF y(2)] y show ?case by (auto simp: nth_Cons split: nat.splits)
qed

lemma zero_loop_Inr:
  assumes "\<forall>cs v. hash cs = Inr v \<longrightarrow> P v"
  shows "P z \<Longrightarrow> zero_loop hash arity n z = Inr (zs, zlast) \<Longrightarrow>
         length zs = n \<and> (\<forall>v \<in> set zs. P v) \<and> P zlast"
proof (induction n arbitrary: z zs)
  case 0
  then show ?case by simp
next
  case (Suc n)
  then obtain z1 zs1 where z1: "hash (replicate arity z) = Inr z1"
    "zero_loop hash arity n z1 = Inr (zs1, zlast)" "zs = z # zs1"
    by (auto split: sum.splits prod.splits)
  have "P z1" using assms z1(1) by blast
  from Suc.IH [OF this z1(2)] Suc.prems(1) z1(3) show ?case by simp
qed

lemma build_level_Inr:
  assumes "\<forall>cs v. hash cs = Inr v \<longrightarrow> P v" and "build_level hash arity z row = Inr r"
  shows "\<forall>v \<in> set r. P v"
proof -
  let ?f = "\<lambda>index. hash (map (\<lambda>i. coalesce (js_get row (index * arity + i)) z) [0..<arity])"
  let ?xs = "[0..<(length row + arity - 1) div arity]"
  have m: "mapM ?f ?xs = Inr r" using assms(2) by (simp add: build_level_def)
  from mapM_Inr [OF m] have "\<forall>k < length r. \<exists>cs. hash cs = Inr (r ! k)"
    by (metis (no_types, lifting))
  then show ?thesis using assms(1) by (metis in_set_conv_nth)
qed

lemma build_levels_Inr:
  assumes "\<forall>cs v. hash cs = Inr v \<longrightarrow> P v"
  shows "\<forall>v \<in> set row. P v \<Longrightarrow> build_levels hash arity zs row = Inr rows \<Longrightarrow>
         length rows = Suc (length zs) \<and> rows ! 0 = row \<and> (\<forall>r \<in> set rows. \<forall>v \<in> set r. P v)"
proof (induction zs arbitrary: row rows)
  case Nil
  then show ?case by auto
next
  case (Cons z zs)
  then obtain upper rows1 where u: "build_level hash arity z row = Inr upper"
    "build_levels hash arity zs upper = Inr rows1" "rows = row # rows1"
    by (auto split: sum.splits)
  have "\<forall>v \<in> set upper. P v" by (rule build_level_Inr [OF assms u(1)])
  from Cons.IH [OF this u(2)] Cons.prems(1) u(3) show ?case by simp
qed

lemma constructed_Inr:
  assumes "IncrementalMerkleTree hash depth zeroValue arity leaves = Inr t"
    and "\<forall>cs v. hash cs = Inr v \<longrightarrow> P v" and "P zeroValue" and "\<forall>v \<in> set leaves. P v"
  shows "imt_hash t = hash \<and> imt_depth t = depth \<and> imt_arity t = arity
         \<and> 1 \<le> depth \<and> depth \<le> 32
         \<and> length (imt_zeroes t) = depth \<and> length (imt_nodes t) = depth + 1
         \<and> imt_nodes t ! 0 = leaves
         \<and> (\<forall>v \<in> set (imt_zeroes t). P v)
         \<and> (\<forall>l < depth. \<forall>v \<in> set (imt_nodes t ! l). P v)"
proof -
  have d: "1 \<le> depth" "depth \<le> 32"
    using assms(1)
    by (auto simp: IncrementalMerkleTree_def maxDepth_def split: sum.splits if_splits)
  obtain zs zlast where z: "zero_loop hash arity depth zeroValue = Inr (zs, zlast)"
    using assms(1)
    by (auto simp: IncrementalMerkleTree_def split: sum.splits if_splits)
  from zero_loop_Inr [OF assms(2,3) z]
  have zs: "length zs = depth" "\<forall>v \<in> set zs. P v" by auto
  show ?thesis
  proof (cases "leaves = []")
    case True
    then have "t = \<lparr> imt_hash = hash, imt_depth = depth, imt_zeroes = zs,
                     imt_nodes = replicate depth [] @ [[zlast]], imt_arity = arity \<rparr>"
      using assms(1) z
      by (auto simp: IncrementalMerkleTree_def split: sum.splits if_splits)
    then show ?thesis using d zs True by (auto simp: nth_append)
  next
    case False
    then obtain rows where r: "build_levels hash arity zs leaves = Inr rows"
      and t: "t = \<lparr> imt_hash = hash, imt_depth = depth, imt_zeroes = zs,
                     imt_nodes = rows, imt_arity = arity \<rparr>"
      using assms(1) z
      by (auto simp: IncrementalMerkleTree_def split: sum.splits if_splits)
    from build_levels_Inr [OF assms(2,4) r]
    have rows: "length rows = Suc (length zs)" "rows ! 0 = leaves"
      "\<forall>r \<in> set rows. \<forall>v \<in> set r. P v"
      by auto
    have "\<forall>l < depth. \<forall>v \<in> set (rows ! l). P v"
      using rows(1,3) zs(1) by (metis less_Suc_eq nth_mem)
    then show ?thesis using d zs rows by (simp add: t)
  qed
qed

lemma poseidon2_hash_Big: "poseidon2_hash E cs = Inr v \<Longrightarrow> \<exists>n. v = Big n"
  by (auto simp: poseidon2_hash_def split: sum.splits if_splits)

lemma Group_Inr:
  assumes "Group E ident d members = Inr g"
  shows "\<exists>ms. mapM (BigInt E) members = Inr ms
           \<and> imt_nodes (merkleTree g) ! 0 = map Big ms
           \<and> imt_depth (merkleTree g) = d \<and> imt_arity (merkleTree g) = 2
           \<and> 16 \<le> d \<and> d \<le> 32
           \<and> length (imt_zeroes (merkleTree g)) = d
           \<and> length (imt_nodes (merkleTree g)) = d + 1
           \<and> (\<forall>v \<in> set (imt_zeroes (merkleTree g)). \<exists>n. v = Big n)
           \<and> (\<forall>l < d. \<forall>v \<in> set (imt_nodes (merkleTree g) ! l). \<exists>n. v = Big n)"
proof -
  from assms obtain z ms t where d: "16 \<le> d" "d \<le> 32"
    and ms: "mapM (BigInt E) members = Inr ms"
    and t: "IncrementalMerkleTree (poseidon2_hash E) d (Big z) 2 (map Big ms) = Inr t"
    and g: "g = \<lparr> group_id = ident, merkleTree = t \<rparr>"
    by (auto simp: Group_def split: if_splits sum.splits)
  have "\<forall>cs v. poseidon2_hash E cs = Inr v \<longrightarrow> (\<exists>n. v = Big n)"
    using poseidon2_hash_Big by blast
  from constructed_Inr [OF t this] show ?thesis using d ms by (auto simp: g)
qed

text \<open>The constructor of the group returns when the members can be coerced and fit.\<close>

lemma bigint_Big: "typeof v = ''bigint'' \<longleftrightarrow> (\<exists>n. v = Big n)"
  by (cases v) auto

lemma poseidon2_hash_on_bigs:
  assumes "length cs = 2" and "\<forall>c \<in> set cs. typeof c = ''bigint''"
  shows "poseidon2_hash E cs = Inr (poseidon2_total E cs)"
proof -
  from assms(1) obtain c0 c1 where cs: "cs = [c0, c1]"
    by (cases cs; cases "tl cs") auto
  with assms(2) obtain a b where "c0 = Big a" "c1 = Big b" by (auto simp: bigint_Big)
  then show ?thesis by (simp add: cs poseidon2_hash_def poseidon2_total_def BigInt_def)
qed

lemma mapM_cong: "\<forall>x \<in> set xs. f x = g x \<Longrightarrow> mapM f xs = mapM g xs"
  by (induction xs) (auto split: sum.splits)

lemma zero_loop_cong:
  assumes "\<forall>cs. length cs = 2 \<and> (\<forall>c \<in> set cs. P c) \<longrightarrow> hash cs = Inr (h cs) \<and> P (h cs)"
  shows "P z \<Longrightarrow> zero_loop hash 2 n z = zero_loop (pureHash h) 2 n z"
proof (induction n arbitrary: z)
  case 0
  show ?case by simp
next
  case (Suc n)
  have "length [z, z] = 2 \<and> (\<forall>c \<in> set [z, z]. P c)" using Suc.prems by simp
  with assms have e: "hash [z, z] = Inr (h [z, z])" "P (h [z, z])" by blast+
  show ?case using Suc.IH [OF e(2)] by (simp add: replicate_two e(1) pureHash_app)
qed

lemma build_level_cong:
  assumes "\<forall>cs. length cs = 2 \<and> (\<forall>c \<in> set cs. P c) \<longrightarrow> hash cs = Inr (h cs) \<and> P (h cs)"
    and "P z" and "\<forall>v \<in> set row. P v"
  shows "build_level hash 2 z row = Inr (row_above h z row) \<and> (\<forall>v \<in> set (row_above h z row). P v)"
proof -
  have two: "[0..<2] = [0, Suc 0]" by (simp add: upt_rec)
  have c: "P (coalesce (js_get row j) z)" for j
    using assms(2,3) by (simp add: coalesce_def js_get_def)
  have ok: "hash [coalesce (js_get row (k * 2)) z, coalesce (js_get row (k * 2 + 1)) z]
              = Inr (h [coalesce (js_get row (k * 2)) z, coalesce (js_get row (k * 2 + 1)) z])
            \<and> P (h [coalesce (js_get row (k * 2)) z, coalesce (js_get row (k * 2 + 1)) z])" for k
    using assms(1) c by simp
  have ok': "hash (map (\<lambda>i. coalesce (js_get row (k * 2 + i)) z) [0..<2]) =
             Inr (h (map (\<lambda>i. coalesce (js_get row (k * 2 + i)) z) [0..<2]))" for k
    using ok [of k] by (simp add: two)
  have "build_level hash 2 z row =
          mapM (\<lambda>k. Inr (h (map (\<lambda>i. coalesce (js_get row (k * 2 + i)) z) [0..<2])))
            [0..<(length row + 2 - 1) div 2]"
    unfolding build_level_def by (simp only: ok')
  also have "\<dots> = Inr (map (\<lambda>k. h (map (\<lambda>i. coalesce (js_get row (k * 2 + i)) z) [0..<2]))
                        [0..<(length row + 2 - 1) div 2])"
    by (rule mapM_pure)
  also have "map (\<lambda>k. h (map (\<lambda>i. coalesce (js_get row (k * 2 + i)) z) [0..<2]))
                        [0..<(length row + 2 - 1) div 2] = row_above h z row"
    by (simp add: row_above_def two)
  finally have "build_level hash 2 z row = Inr (row_above h z row)" .
  moreover have "\<forall>v \<in> set (row_above h z row). P v"
    using ok by (auto simp: row_above_def)
  ultimately show ?thesis by simp
qed

lemma build_levels_cong:
  assumes "\<forall>cs. length cs = 2 \<and> (\<forall>c \<in> set cs. P c) \<longrightarrow> hash cs = Inr (h cs) \<and> P (h cs)"
  shows "\<forall>z \<in> set zs. P z \<Longrightarrow> \<forall>v \<in> set row. P v \<Longrightarrow>
         build_levels hash 2 zs row = Inr (rows_from h zs row)"
proof (induction zs arbitrary: row)
  case Nil
  show ?case by simp
next
  case (Cons z zs)
  from build_level_cong [OF assms, of z row] Cons.prems
  have b: "build_level hash 2 z row = Inr (row_above h z row)"
    "\<forall>v \<in> set (row_above h z row). P v"
    by simp_all
  show ?case using Cons.IH [OF _ b(2)] Cons.prems(1) by (simp add: b(1))
qed

lemma zero_at_P:
  assumes "\<forall>cs. length cs = 2 \<and> (\<forall>c \<in> set cs. P c) \<longrightarrow> hash cs = Inr (h cs) \<and> P (h cs)"
    and "P z"
  shows "P (zero_at h z l)"
  using assms by (induction l) simp_all

lemma constructed_cong:
  assumes "\<forall>cs. length cs = 2 \<and> (\<forall>c \<in> set cs. P c) \<longrightarrow> hash cs = Inr (h cs) \<and> P (h cs)"
    and "P zeroValue" and "\<forall>v \<in> set leaves. P v"
    and "IncrementalMerkleTree (pureHash h) depth zeroValue 2 leaves = Inr t"
  shows "IncrementalMerkleTree hash depth zeroValue 2 leaves = Inr (t\<lparr>imt_hash := hash\<rparr>)"
proof -
  have zl: "zero_loop hash 2 depth zeroValue =
              Inr (map (zero_at h zeroValue) [0..<depth], zero_at h zeroValue depth)"
    using zero_loop_cong [OF assms(1,2)] by (simp add: zero_loop_pure)
  have "\<forall>z \<in> set (map (zero_at h zeroValue) [0..<depth]). P z"
    using zero_at_P [OF assms(1,2)] by simp
  from build_levels_cong [OF assms(1) this assms(3)]
  have bl: "build_levels hash 2 (map (zero_at h zeroValue) [0..<depth]) leaves =
              Inr (rows_from h (map (zero_at h zeroValue) [0..<depth]) leaves)" .
  show ?thesis
    using assms(4)
    by (auto simp: IncrementalMerkleTree_def zl bl zero_loop_pure build_levels_pure
        split: sum.splits if_splits)
qed

lemma Group_returns:
  assumes "16 \<le> d" and "d \<le> 32" and "keccakZero E ident = Inr z"
    and "mapM (BigInt E) members = Inr ms" and "length members \<le> 2 ^ d"
  shows "\<exists>g. Group E ident d members = Inr g"
proof -
  have h: "\<forall>cs. length cs = 2 \<and> (\<forall>c \<in> set cs. typeof c = ''bigint'')
             \<longrightarrow> poseidon2_hash E cs = Inr (poseidon2_total E cs)
                 \<and> typeof (poseidon2_total E cs) = ''bigint''"
    using poseidon2_hash_on_bigs by (simp add: poseidon2_total_def)
  from mapM_Inr [OF assms(4)] have len: "length (map Big ms) \<le> 2 ^ d" using assms(5) by simp
  have "1 \<le> d" using assms(1) by simp
  from constructed_binary [OF this assms(2) _ len, of "Big z" "poseidon2_total E"]
  obtain t where "IncrementalMerkleTree (pureHash (poseidon2_total E)) d (Big z) 2 (map Big ms) = Inr t"
    by auto
  from constructed_cong [where P = "\<lambda>v. typeof v = ''bigint''", OF h _ _ this]
  have "IncrementalMerkleTree (poseidon2_hash E) d (Big z) 2 (map Big ms)
          = Inr (t\<lparr>imt_hash := poseidon2_hash E\<rparr>)"
    by simp
  then show ?thesis using assms(1,2,3,4) by (simp add: Group_def)
qed

lemma sample_group:
  "\<exists>g. Group sample_env (Big 123) 20 [Big 123, Number 456] = Inr g"
proof -
  have k: "keccakZero sample_env (Big 123) = Inr ((7919 * 123 + 13) mod 2 ^ 248)"
    by (simp add: sample_env_def)
  have m: "mapM (BigInt sample_env) [Big 123, Number 456] = Inr [123, 456]"
    by (simp add: BigInt_def)
  show ?thesis by (rule Group_returns [OF _ _ k m]) simp_all
qed

lemma indexOf_from_absent: "v \<notin> set xs \<Longrightarrow> indexOf_from xs v k = - 1"
  by (induction xs arbitrary: k) auto

lemma indexOf_from_present:
  "j < length xs \<Longrightarrow> xs ! j = v \<Longrightarrow> k \<le> indexOf_from xs v k \<and> indexOf_from xs v k \<le> k + int j"
proof (induction xs arbitrary: j k)
  case Nil
  then show ?case by simp
next
  case (Cons y xs)
  show ?case
  proof (cases "y = v")
    case True
    then show ?thesis by simp
  next
    case False
    then obtain j' where j': "j = Suc j'" using Cons.prems by (cases j) auto
    from Cons.IH [of j' "k + 1"] Cons.prems j' False show ?thesis by auto
  qed
qed

text \<open>
  C7. \<open>Group.indexOf\<close> hands the member to the tree as it is. In a group built by the
  constructor all leaves are bigints, so for a member \<open>n\<close> of the group \<open>indexOf\<close> finds the
  bigint \<open>n\<close> but answers -1 for the number \<open>n\<close>: the two calls do not behave alike.
  (\<open>addMember\<close> and the constructor do coerce with \<open>BigInt\<close>.)
\<close>

theorem Group_indexOf_uncoerced:
  assumes "Group E ident d members = Inr g" and "k < length members"
    and "BigInt E (members ! k) = Inr n"
  shows "Group_indexOf g (Number n) = Inr (- 1)
         \<and> (\<exists>j. Group_indexOf g (Big n) = Inr j \<and> 0 \<le> j \<and> j \<le> int k)"
proof -
  from Group_Inr [OF assms(1)] obtain ms where ms: "mapM (BigInt E) members = Inr ms"
    and l: "imt_nodes (merkleTree g) ! 0 = map Big ms"
    by auto
  from mapM_Inr [OF ms] assms(2,3) have k: "k < length ms" "ms ! k = n" by auto
  have "Number n \<notin> set (map Big ms)" by auto
  then have a: "Group_indexOf g (Number n) = Inr (- 1)"
    by (simp add: Group_indexOf_def IMT_indexOf_def indexOf_def checkParameter1_def l
          indexOf_from_absent)
  have "k < length (map Big ms)" "map Big ms ! k = Big n" using k by simp_all
  from indexOf_from_present [OF this, of 0]
  have b: "\<exists>j. Group_indexOf g (Big n) = Inr j \<and> 0 \<le> j \<and> j \<le> int k"
    by (simp add: Group_indexOf_def IMT_indexOf_def indexOf_def checkParameter1_def l)
  show ?thesis using a b by simp
qed

theorem Group_indexOf_uncoerced_witness:
  "\<exists>g. Group sample_env (Big 123) 20 [Big 123, Number 456] = Inr g
      \<and> Group_indexOf g (Number 456) = Inr (- 1) \<and> Group_indexOf g (Big 456) = Inr 1"
proof -
  from sample_group obtain g where g: "Group sample_env (Big 123) 20 [Big 123, Number 456] = Inr g" ..
  have b: "BigInt sample_env ([Big 123, Number 456] ! 1) = Inr 456" by (simp add: BigInt_def)
  have b0: "BigInt sample_env ([Big 123, Number 456] ! 0) = Inr 123" by (simp add: BigInt_def)
  from Group_indexOf_uncoerced [OF g _ b]
  obtain j where j: "Group_indexOf g (Number 456) = Inr (- 1)" "Group_indexOf g (Big 456) = Inr j"
    "0 \<le> j" "j \<le> 1"
    by auto
  from Group_Inr [OF g] have "imt_nodes (merkleTree g) ! 0 = [Big 123, Big 456]"
    by (auto simp: BigInt_def)
  then have "Group_indexOf g (Big 456) = Inr 1"
    by (simp add: Group_indexOf_def IMT_indexOf_def indexOf_def checkParameter1_def)
  then show ?thesis using g j by auto
qed

lemma mapM_first_entry:
  "mapM first_entry (map (\<lambda>(position, window). Window window) path) =
     Inr (map (\<lambda>(position, window). js_get window 0) path)"
  by (induction path) auto

lemma set_root_fields:
  "set_root t r = Inr t1 \<Longrightarrow> imt_depth t1 = imt_depth t \<and> imt_arity t1 = imt_arity t"
  by (auto simp: set_root_def split: sum.splits prod.splits)

lemma with_tree_Inr: "with_tree g r = Inr g1 \<Longrightarrow> r = Inr (merkleTree g1)"
  by (auto simp: with_tree_def split: sum.splits)

lemma group_state_inv:
  "group_state E d g \<Longrightarrow> imt_depth (merkleTree g) = d \<and> imt_arity (merkleTree g) = 2"
proof (induction rule: group_state.induct)
  case (constructed ident members g)
  from Group_Inr [OF this] show ?case by auto
next
  case (added g member g1)
  then obtain m where "with_tree g (IMT_insert (merkleTree g) (Big m)) = Inr g1"
    by (auto simp: Group_addMember_def split: sum.splits)
  from with_tree_Inr [OF this] added.IH show ?case
    using set_root_fields [of "merkleTree g" _ "merkleTree g1"] by (simp add: IMT_insert_def)
next
  case (changed g index member g1)
  then have "with_tree g (IMT_update (merkleTree g) index member) = Inr g1"
    by (simp add: Group_updateMember_def)
  from with_tree_Inr [OF this] changed.IH show ?case
    using set_root_fields [of "merkleTree g" _ "merkleTree g1"] by (simp add: IMT_update_def)
next
  case (removed g index g1)
  then have "with_tree g (IMT_delete (merkleTree g) index) = Inr g1"
    by (simp add: Group_removeMember_def)
  from with_tree_Inr [OF this] removed.IH show ?case
    using set_root_fields [of "merkleTree g" _ "merkleTree g1"] by (simp add: IMT_delete_def)
qed

text \<open>
  C9. For every group of depth \<open>d\<close> that the constructor and the methods \<open>addMember\<close>,
  \<open>updateMember\<close> and \<open>removeMember\<close> can produce, and every index \<open>i\<close> of a member,
  \<open>createProof(i)\<close> of the tree and \<open>generateMerkleProof(i)\<close> both return; the two proofs
  have the same root, leaf and path indices; both \<open>siblings\<close> arrays have length \<open>d\<close>; and
  at each level the tree's entry is a window holding exactly one value while the group's
  entry is that value itself. In a group as the constructor returns it, that value is a
  bigint.
\<close>

theorem generateMerkleProof_collapses:
  assumes "group_state E d g" and "0 \<le> i" and "i < int (length (Group_members g))"
  shows "\<exists>q p. IMT_createProof (merkleTree g) i = Inr q
           \<and> Group_generateMerkleProof g i = Inr p
           \<and> root p = root q \<and> leaf p = leaf q \<and> pathIndices p = pathIndices q
           \<and> length (siblings q) = d \<and> length (siblings p) = d
           \<and> (\<forall>l < d. \<exists>v. siblings q ! l = Window [v] \<and> siblings p ! l = Single v
                  \<and> ((\<exists>ident members. Group E ident d members = Inr g)
                       \<longrightarrow> typeof v = ''bigint''))"
proof -
  let ?t = "merkleTree g"
  from group_state_inv [OF assms(1)]
  have dp: "imt_depth ?t = d" and ar: "imt_arity ?t = 2" by simp_all
  have ix: "i < int (length (imt_nodes ?t ! 0))"
    using assms(3) by (simp add: Group_members_def IMT_leaves_def)
  let ?path = "proof_loop 2 (imt_zeroes ?t) d 0 (nat i) (imt_nodes ?t)"
  let ?q = "\<lparr> root = IMT_root ?t, leaf = imt_nodes ?t ! 0 ! nat i,
              pathIndices = map (\<lambda>(position, window). int position) ?path,
              siblings = map (\<lambda>(position, window). Window window) ?path \<rparr>"
  let ?p = "?q\<lparr>siblings := map Single (map (\<lambda>(position, window). js_get window 0) ?path)\<rparr>"
  have q: "IMT_createProof ?t i = Inr ?q"
    using assms(2) ix by (simp add: IMT_createProof_def createProof_def dp ar Let_def)
  have p: "Group_generateMerkleProof g i = Inr ?p"
    by (simp add: Group_generateMerkleProof_def q mapM_first_entry)
  have lp: "length ?path = d" by (simp add: length_proof_loop)
  have ent: "\<exists>v. siblings ?q ! k = Window [v] \<and> siblings ?p ! k = Single v
               \<and> ((\<exists>ident members. Group E ident d members = Inr g) \<longrightarrow> typeof v = ''bigint'')"
    if k: "k < d" for k
  proof -
    let ?s = "sibling_of (imt_nodes ?t ! k) (imt_zeroes ?t ! k) (nat i div 2 ^ k)"
    have pk: "?path ! k = (nat i div 2 ^ k mod 2, [?s])"
      using proof_loop_nth [of 0 k d "imt_zeroes ?t" "nat i" "imt_nodes ?t"] k by simp
    have big: "typeof ?s = ''bigint''" if "Group E ident d members = Inr g" for ident members
    proof -
      from Group_Inr [OF that]
      have lz: "length (imt_zeroes ?t) = d"
        and bz: "\<forall>v \<in> set (imt_zeroes ?t). \<exists>n. v = Big n"
        and bn: "\<forall>l < d. \<forall>v \<in> set (imt_nodes ?t ! l). \<exists>n. v = Big n"
        by auto
      have "?s \<in> set (imt_nodes ?t ! k) \<or> ?s = imt_zeroes ?t ! k" by (rule sibling_of_cases)
      moreover have "imt_zeroes ?t ! k \<in> set (imt_zeroes ?t)" using k lz by simp
      ultimately have "\<exists>n. ?s = Big n"
      proof (elim disjE)
        assume "?s \<in> set (imt_nodes ?t ! k)"
        then show ?thesis using bn k by simp
      next
        assume "?s = imt_zeroes ?t ! k" and "imt_zeroes ?t ! k \<in> set (imt_zeroes ?t)"
        then show ?thesis using bz by simp
      qed
      then show ?thesis by auto
    qed
    have "siblings ?q ! k = Window [?s] \<and> siblings ?p ! k = Single ?s"
      using k lp pk by (simp add: js_get_def)
    then show ?thesis using big by blast
  qed
  show ?thesis
    using q p lp ent by (intro exI [of _ ?q] exI [of _ ?p]) simp
qed

theorem generateMerkleProof_collapses_witness:
  "\<exists>g p. Group sample_env (Big 123) 20 [Big 123, Number 456] = Inr g
      \<and> Group_generateMerkleProof g 1 = Inr p \<and> length (siblings p) = 20
      \<and> siblings p ! 0 = Single (Big 123) \<and> typeof (Big 123) = ''bigint''
      \<and> leaf p = Big 456"
proof -
  from sample_group obtain g where g: "Group sample_env (Big 123) 20 [Big 123, Number 456] = Inr g" ..
  from Group_Inr [OF g] have l: "imt_nodes (merkleTree g) ! 0 = [Big 123, Big 456]"
    and dp: "imt_depth (merkleTree g) = 20" and ar: "imt_arity (merkleTree g) = 2"
    by (auto simp: BigInt_def)
  have st: "group_state sample_env 20 g" using g by (rule group_state.constructed)
  have ix: "(1::int) < int (length (Group_members g))"
    by (simp add: Group_members_def IMT_leaves_def l)
  have i0: "(0::int) \<le> 1" by simp
  have ex: "\<exists>ident members. Group sample_env ident 20 members = Inr g" using g by blast
  from generateMerkleProof_collapses [OF st i0 ix]
  obtain q p where q: "IMT_createProof (merkleTree g) 1 = Inr q"
    and p: "Group_generateMerkleProof g 1 = Inr p" "leaf p = leaf q" "length (siblings p) = 20"
    and e: "\<forall>l < 20. \<exists>v. siblings q ! l = Window [v] \<and> siblings p ! l = Single v
              \<and> ((\<exists>ident members. Group sample_env ident 20 members = Inr g)
                    \<longrightarrow> typeof v = ''bigint'')"
    by auto
  have s0: "proof_loop 2 (imt_zeroes (merkleTree g)) 20 0 1 (imt_nodes (merkleTree g)) ! 0 =
          (1, [Big 123])"
    using proof_loop_nth [of 0 0 20 "imt_zeroes (merkleTree g)" 1 "imt_nodes (merkleTree g)"]
    by (simp add: l sibling_of_def)
  have pl: "proof_loop 2 (imt_zeroes (merkleTree g)) 20 0 1 (imt_nodes (merkleTree g)) \<noteq> []"
    using length_proof_loop [of 20 20 0 "imt_zeroes (merkleTree g)" 1 "imt_nodes (merkleTree g)"]
    by auto
  have q0: "siblings q ! 0 = Window [Big 123]" and ql: "leaf q = Big 456"
    using q s0 pl
    by (auto simp: IMT_createProof_def createProof_def dp ar l Let_def nth_map
        length_proof_loop)
  from e have "\<exists>v. siblings q ! 0 = Window [v] \<and> siblings p ! 0 = Single v
                 \<and> typeof v = ''bigint''" using ex by simp
  then have "siblings p ! 0 = Single (Big 123) \<and> typeof (Big 123) = ''bigint''"
    using q0 by auto
  then show ?thesis using g p ql by auto
qed

section \<open>genProof\<close>

lemma proof_inputs_unregistered:
  assumes "\<forall>lim m. BigInt E (default_to messageLimit (Number 1)) = Inr lim
              \<and> m \<in> set (case identityCommitments rm of None \<Rightarrow> [] | Some ms \<Rightarrow> ms)
              \<longrightarrow> BigInt E m \<noteq> Inr (poseidon2 E (commitment ident) lim)"
  shows "\<exists>e. proof_inputs E now rm message ident messageId0 messageLimit = Inl e
           \<and> ((\<exists>n. BigInt E (default_to messageId0 (Number 0)) = Inr n)
                \<and> (\<exists>n g. BigInt E (room_id rm) = Inr n
                      \<and> Group E (Big n) 20
                           (case identityCommitments rm of None \<Rightarrow> [] | Some ms \<Rightarrow> ms) = Inr g)
                \<and> (\<exists>n. BigInt E (default_to messageLimit (Number 1)) = Inr n)
               \<longrightarrow> e = LeafDoesNotExist)"
proof -
  let ?members = "case identityCommitments rm of None \<Rightarrow> [] | Some ms \<Rightarrow> ms"
  let ?limit = "default_to messageLimit (Number 1)"
  let ?mid = "default_to messageId0 (Number 0)"
  have main: "Group_indexOf g (Big (getRateCommitmentHash E (commitment ident) lim)) = Inr (- 1)"
    if g: "Group E (Big n) 20 ?members = Inr g" and lim: "BigInt E ?limit = Inr lim"
    for n g lim
  proof -
    let ?rc = "poseidon2 E (commitment ident) lim"
    from Group_Inr [OF g] obtain ms where ms: "mapM (BigInt E) ?members = Inr ms"
      and l: "imt_nodes (merkleTree g) ! 0 = map Big ms"
      by auto
    from mapM_Inr [OF ms] have len: "length ms = length ?members"
      and each: "\<forall>k < length ?members. BigInt E (?members ! k) = Inr (ms ! k)"
      by auto
    have "?rc \<notin> set ms"
    proof
      assume "?rc \<in> set ms"
      then obtain k where k: "k < length ms" "ms ! k = ?rc" by (auto simp: in_set_conv_nth)
      then have "BigInt E (?members ! k) = Inr ?rc" using each len by simp
      moreover have "?members ! k \<in> set ?members" using k len by (intro nth_mem) simp
      ultimately show False using assms lim by blast
    qed
    then have "Big ?rc \<notin> set (map Big ms)" by auto
    then show ?thesis
      by (simp add: Group_indexOf_def IMT_indexOf_def indexOf_def checkParameter1_def l
            indexOf_from_absent getRateCommitmentHash_def)
  qed
  have neg: "Group_generateMerkleProof g (- 1) = Inl LeafDoesNotExist" for g
    by (simp add: Group_generateMerkleProof_def IMT_createProof_def createProof_def)
  show ?thesis
  proof (cases "proof_inputs E now rm message ident messageId0 messageLimit")
    case (Inl e)
    have "e = LeafDoesNotExist"
      if "BigInt E ?mid = Inr a" "BigInt E (room_id rm) = Inr b"
        "Group E (Big b) 20 ?members = Inr g" "BigInt E ?limit = Inr c" for a b c g
      using Inl that main [OF that(3,4)] neg [of g]
      by (simp add: proof_inputs_def Let_def)
    then show ?thesis using Inl by blast
  next
    case (Inr r)
    then obtain b c g where "BigInt E (room_id rm) = Inr b" "BigInt E ?limit = Inr c"
      "Group E (Big b) 20 ?members = Inr g"
      by (auto simp: proof_inputs_def Let_def split: sum.splits)
    with Inr main [OF this(3,2)] neg [of g] have False
      by (auto simp: proof_inputs_def Let_def split: sum.splits)
    then show ?thesis ..
  qed
qed

text \<open>
  C1, as amended. If no identity commitment of the room is, after the coercion with
  \<open>BigInt\<close> that the group applies, the rate commitment
  \<open>poseidon2([identity.commitment, messageLimit])\<close> (with \<open>messageLimit\<close> 1 when the argument
  is left out), then the call of \<open>genProof\<close> returns a promise that is rejected: the
  function fails while it assembles the proof inputs, no proof input exists, and the
  result is the same whatever the prover is, which is not called. When the coercions of
  the arguments and the construction of the group succeed, the error is the one
  \<open>createProof\<close> throws for the index -1, "The leaf does not exist in this tree".
\<close>

theorem genProof_unregistered:
  assumes "\<forall>lim m. BigInt E (default_to messageLimit (Number 1)) = Inr lim
              \<and> m \<in> set (case identityCommitments rm of None \<Rightarrow> [] | Some ms \<Rightarrow> ms)
              \<longrightarrow> BigInt E m \<noteq> Inr (poseidon2 E (commitment ident) lim)"
  shows "\<exists>e. proof_inputs E now rm message ident messageId0 messageLimit = Inl e
           \<and> genProof E generateProof nullifierString now rm message ident messageId0 messageLimit
               = Inr (Rejected e)
           \<and> ((\<exists>n. BigInt E (default_to messageId0 (Number 0)) = Inr n)
                \<and> (\<exists>n g. BigInt E (room_id rm) = Inr n
                      \<and> Group E (Big n) 20
                           (case identityCommitments rm of None \<Rightarrow> [] | Some ms \<Rightarrow> ms) = Inr g)
                \<and> (\<exists>n. BigInt E (default_to messageLimit (Number 1)) = Inr n)
               \<longrightarrow> e = LeafDoesNotExist)"
proof -
  from proof_inputs_unregistered [OF assms, of now message messageId0]
  obtain e where e: "proof_inputs E now rm message ident messageId0 messageLimit = Inl e"
    "(\<exists>n. BigInt E (default_to messageId0 (Number 0)) = Inr n)
       \<and> (\<exists>n g. BigInt E (room_id rm) = Inr n
             \<and> Group E (Big n) 20
                  (case identityCommitments rm of None \<Rightarrow> [] | Some ms \<Rightarrow> ms) = Inr g)
       \<and> (\<exists>n. BigInt E (default_to messageLimit (Number 1)) = Inr n)
      \<longrightarrow> e = LeafDoesNotExist"
    by blast
  have "genProof E generateProof nullifierString now rm message ident messageId0 messageLimit
          = Inr (Rejected e)"
    by (simp add: genProof_def e(1))
  then show ?thesis using e by blast
qed

lemma sample_room_id: "BigInt sample_env (Str ''123'') = Inr 123"
  by (simp add: BigInt_def sample_env_def sample_StringToBigInt_def is_hex_digit_def
        is_dec_digit_def hex_digit_def digits_value_def digit_of_def)

lemma sample_rate_commitment:
  "poseidon2 sample_env (commitment (make_identity sample_env 255 16)) 1 = 654"
  by (simp add: make_identity_def sample_env_def)

lemma sample_unregistered:
  "proof_inputs sample_env 1700000000000
     \<lparr> room_id = Str ''123'', identityCommitments = Some [Big 123, Big 456] \<rparr>
     ''hello world'' (make_identity sample_env 255 16) Undefined Undefined
   = Inl LeafDoesNotExist"
proof -
  let ?rm = "\<lparr> room_id = Str ''123'', identityCommitments = Some [Big 123, Big 456] \<rparr>"
  let ?i = "make_identity sample_env 255 16"
  have d: "default_to Undefined (Number 1) = Number 1" "default_to Undefined (Number 0) = Number 0"
    by (simp_all add: default_to_def)
  have lim: "BigInt sample_env (Number 1) = Inr 1" and mid: "BigInt sample_env (Number 0) = Inr 0"
    by (simp_all add: BigInt_def)
  have hyp: "\<forall>lim m. BigInt sample_env (default_to Undefined (Number 1)) = Inr lim
              \<and> m \<in> set (case identityCommitments ?rm of None \<Rightarrow> [] | Some ms \<Rightarrow> ms)
              \<longrightarrow> BigInt sample_env m \<noteq> Inr (poseidon2 sample_env (commitment ?i) lim)"
    using sample_rate_commitment by (auto simp: BigInt_def d)
  have k: "keccakZero sample_env (Big 123) = Inr ((7919 * 123 + 13) mod 2 ^ 248)"
    by (simp add: sample_env_def)
  have m: "mapM (BigInt sample_env) [Big 123, Big 456] = Inr [123, 456]"
    by (simp add: BigInt_def)
  have "\<exists>g. Group sample_env (Big 123) 20 [Big 123, Big 456] = Inr g"
    by (rule Group_returns [OF _ _ k m]) simp_all
  then obtain g where g: "Group sample_env (Big 123) 20 [Big 123, Big 456] = Inr g" ..
  from proof_inputs_unregistered [OF hyp, of 1700000000000 "''hello world''" Undefined]
  obtain e where e: "proof_inputs sample_env 1700000000000 ?rm ''hello world'' ?i Undefined Undefined
      = Inl e"
    and l: "(\<exists>n. BigInt sample_env (default_to Undefined (Number 0)) = Inr n)
                \<and> (\<exists>n g. BigInt sample_env (room_id ?rm) = Inr n
                      \<and> Group sample_env (Big n) 20
                           (case identityCommitments ?rm of None \<Rightarrow> [] | Some ms \<Rightarrow> ms) = Inr g)
                \<and> (\<exists>n. BigInt sample_env (default_to Undefined (Number 1)) = Inr n)
               \<longrightarrow> e = LeafDoesNotExist"
    by blast
  have "e = LeafDoesNotExist" using l sample_room_id lim mid g by (auto simp: d)
  then show ?thesis using e by simp
qed

theorem genProof_unregistered_witness:
  "genProof sample_env (\<lambda>inputs. Inr ()) (\<lambda>proof. ''0'') 1700000000000
     \<lparr> room_id = Str ''123'', identityCommitments = Some [Big 123, Big 456] \<rparr>
     ''hello world'' (make_identity sample_env 255 16) (Number 0) (Number 1)
   = Inr (Rejected LeafDoesNotExist)"
proof -
  let ?rm = "\<lparr> room_id = Str ''123'', identityCommitments = Some [Big 123, Big 456] \<rparr>"
  let ?i = "make_identity sample_env 255 16"
  have d: "default_to (Number 1) (Number 1) = Number 1" "default_to (Number 0) (Number 0) = Number 0"
    by (simp_all add: default_to_def)
  have lim: "BigInt sample_env (Number 1) = Inr 1" and mid: "BigInt sample_env (Number 0) = Inr 0"
    by (simp_all add: BigInt_def)
  have hyp: "\<forall>lim m. BigInt sample_env (default_to (Number 1) (Number 1)) = Inr lim
              \<and> m \<in> set (case identityCommitments ?rm of None \<Rightarrow> [] | Some ms \<Rightarrow> ms)
              \<longrightarrow> BigInt sample_env m \<noteq> Inr (poseidon2 sample_env (commitment ?i) lim)"
    using sample_rate_commitment by (auto simp: BigInt_def d)
  have k: "keccakZero sample_env (Big 123) = Inr ((7919 * 123 + 13) mod 2 ^ 248)"
    by (simp add: sample_env_def)
  have m: "mapM (BigInt sample_env) [Big 123, Big 456] = Inr [123, 456]"
    by (simp add: BigInt_def)
  have "\<exists>g. Group sample_env (Big 123) 20 [Big 123, Big 456] = Inr g"
    by (rule Group_returns [OF _ _ k m]) simp_all
  then obtain g where g: "Group sample_env (Big 123) 20 [Big 123, Big 456] = Inr g" ..
  from genProof_unregistered [OF hyp, of 1700000000000 "''hello world''" "Number 0"
      "\<lambda>inputs. Inr ()" "\<lambda>proof. ''0''"]
  obtain e where e: "genProof sample_env (\<lambda>inputs. Inr ()) (\<lambda>proof. ''0'') 1700000000000 ?rm
        ''hello world'' ?i (Number 0) (Number 1) = Inr (Rejected e)"
    and l: "(\<exists>n. BigInt sample_env (default_to (Number 0) (Number 0)) = Inr n)
                \<and> (\<exists>n g. BigInt sample_env (room_id ?rm) = Inr n
                      \<and> Group sample_env (Big n) 20
                           (case identityCommitments ?rm of None \<Rightarrow> [] | Some ms \<Rightarrow> ms) = Inr g)
                \<and> (\<exists>n. BigInt sample_env (default_to (Number 1) (Number 1)) = Inr n)
               \<longrightarrow> e = LeafDoesNotExist"
    by blast
  have "e = LeafDoesNotExist" using l sample_room_id lim mid g by (auto simp: d)
  then show ?thesis using e by simp
qed

text \<open>
  C1 as stated does not hold: \<open>genProof\<close> does not fail synchronously. For the room of
  the repository's own call, whose commitments are 123 and 456, and an identity whose rate
  commitment is neither, the call made without \<open>messageId\<close> and \<open>messageLimit\<close> does not
  throw: it returns a promise, and that promise is rejected with "The leaf does not exist
  in this tree".
\<close>

theorem genProof_returns_rejected_promise:
  "BigInt sample_env (Big 123)
     \<noteq> Inr (poseidon2 sample_env (commitment (make_identity sample_env 255 16)) 1)
   \<and> BigInt sample_env (Big 456)
     \<noteq> Inr (poseidon2 sample_env (commitment (make_identity sample_env 255 16)) 1)
   \<and> genProof sample_env (\<lambda>inputs. Inr ()) (\<lambda>proof. ''0'') 1700000000000
       \<lparr> room_id = Str ''123'', identityCommitments = Some [Big 123, Big 456] \<rparr>
       ''hello world'' (make_identity sample_env 255 16) Undefined Undefined
     = Inr (Rejected LeafDoesNotExist)"
  using sample_rate_commitment
  by (simp add: genProof_def sample_unregistered BigInt_def)

text \<open>
  The default values at work: in a room that holds the rate commitment for the limit 1,
  the call without \<open>messageId\<close> and \<open>messageLimit\<close> assembles the proof inputs with the
  message id 0 and the limit 1, for the leaf that is the rate commitment.
\<close>

lemma sample_registered:
  "\<exists>inputs. proof_inputs sample_env 1700000000000
       \<lparr> room_id = Str ''123'', identityCommitments = Some [Big 123, Big 654] \<rparr>
       ''hello world'' (make_identity sample_env 255 16) Undefined Undefined = Inr inputs
     \<and> userMessageLimit inputs = 1 \<and> messageId inputs = 0
     \<and> leaf (merkleProof inputs) = Big 654 \<and> pathIndices (merkleProof inputs) ! 0 = 1"
proof -
  let ?i = "make_identity sample_env 255 16"
  have d: "default_to Undefined (Number 1) = Number 1" "default_to Undefined (Number 0) = Number 0"
    by (simp_all add: default_to_def)
  have lim: "BigInt sample_env (Number 1) = Inr 1" and mid: "BigInt sample_env (Number 0) = Inr 0"
    by (simp_all add: BigInt_def)
  have k: "keccakZero sample_env (Big 123) = Inr ((7919 * 123 + 13) mod 2 ^ 248)"
    by (simp add: sample_env_def)
  have m: "mapM (BigInt sample_env) [Big 123, Big 654] = Inr [123, 654]"
    by (simp add: BigInt_def)
  have "\<exists>g. Group sample_env (Big 123) 20 [Big 123, Big 654] = Inr g"
    by (rule Group_returns [OF _ _ k m]) simp_all
  then obtain g where g: "Group sample_env (Big 123) 20 [Big 123, Big 654] = Inr g" ..
  from Group_Inr [OF g] have l: "imt_nodes (merkleTree g) ! 0 = [Big 123, Big 654]"
    and dp: "imt_depth (merkleTree g) = 20" and ar: "imt_arity (merkleTree g) = 2"
    by (auto simp: BigInt_def)
  have rc: "getRateCommitmentHash sample_env (commitment ?i) 1 = 654"
    using sample_rate_commitment by (simp add: getRateCommitmentHash_def)
  have ix: "Group_indexOf g (Big 654) = Inr 1"
    by (simp add: Group_indexOf_def IMT_indexOf_def indexOf_def checkParameter1_def l)
  let ?path = "proof_loop 2 (imt_zeroes (merkleTree g)) 20 0 1 (imt_nodes (merkleTree g))"
  have s0: "?path ! 0 = (1, [Big 123])"
    using proof_loop_nth [of 0 0 20 "imt_zeroes (merkleTree g)" 1 "imt_nodes (merkleTree g)"]
    by (simp add: l sibling_of_def)
  have pl: "?path \<noteq> []"
    using length_proof_loop [of 20 20 0 "imt_zeroes (merkleTree g)" 1 "imt_nodes (merkleTree g)"]
    by auto
  obtain p where p: "Group_generateMerkleProof g 1 = Inr p" "leaf p = Big 654"
    "pathIndices p = map (\<lambda>(position, window). int position) ?path"
    by (simp add: Group_generateMerkleProof_def IMT_createProof_def createProof_def dp ar l
          Let_def mapM_first_entry)
  have "pathIndices p ! 0 = 1" using p(3) s0 pl by (simp add: nth_map)
  then show ?thesis
    using p by (simp add: proof_inputs_def Let_def d sample_room_id lim mid g rc ix)
qed

section \<open>Identity\<close>

lemma padStart_hex:
  assumes "length s \<le> n" and "list_all is_hex_digit s"
  shows "length (padStart s n CHR ''0'') = n \<and> list_all is_hex_digit (padStart s n CHR ''0'')"
proof -
  have "is_hex_digit CHR ''0''" by (simp add: is_hex_digit_def hex_digit_def)
  then show ?thesis using assms by (auto simp: padStart_def list_all_iff)
qed

text \<open>
  C4. Let \<open>s\<close> be a string that is not a JSON array, whose SHA-512 digest is given as at most
  128 hexadecimal digits, and let \<open>BigInt\<close> read a \<open>0x\<close> literal as its hexadecimal value.
  With \<open>h\<close> the digest padded on the left with zeros to 128 characters, \<open>Identity(s)\<close>
  returns nullifier \<open>int(h[0:64], 16) >> 3\<close>, trapdoor \<open>int(h[64:128], 16) >> 3\<close>,
  secret \<open>poseidon2([nullifier, trapdoor])\<close> and commitment \<open>poseidon1([secret])\<close>, whatever the
  random source holds: two constructions from the same seed are equal.
\<close>

theorem Identity_seeded:
  assumes "\<not> isJsonArray E s"
    and "length (sha512 E s) \<le> 128" and "list_all is_hex_digit (sha512 E s)"
    and "\<forall>ds. ds \<noteq> [] \<and> list_all is_hex_digit ds
            \<longrightarrow> StringToBigInt E (''0x'' @ ds) = Some (int (digits_value 16 ds))"
  shows "length (padStart (sha512 E s) 128 CHR ''0'') = 128
         \<and> Identity E rnd (Str s) =
             Inr \<lparr> trapdoor =
                     int (digits_value 16 (take 64 (drop 64 (padStart (sha512 E s) 128 CHR ''0''))))
                       div 2 ^ 3,
                   nullifier =
                     int (digits_value 16 (take 64 (padStart (sha512 E s) 128 CHR ''0''))) div 2 ^ 3,
                   secret =
                     poseidon2 E
                       (int (digits_value 16 (take 64 (padStart (sha512 E s) 128 CHR ''0'')))
                          div 2 ^ 3)
                       (int (digits_value 16
                               (take 64 (drop 64 (padStart (sha512 E s) 128 CHR ''0''))))
                          div 2 ^ 3),
                   commitment =
                     poseidon1 E
                       (poseidon2 E
                          (int (digits_value 16 (take 64 (padStart (sha512 E s) 128 CHR ''0'')))
                             div 2 ^ 3)
                          (int (digits_value 16
                                  (take 64 (drop 64 (padStart (sha512 E s) 128 CHR ''0''))))
                             div 2 ^ 3)) \<rparr>
         \<and> Identity E rnd1 (Str s) = Identity E rnd (Str s)"
proof -
  let ?h = "padStart (sha512 E s) 128 CHR ''0''"
  from padStart_hex [OF assms(2,3)]
  have len: "length ?h = 128" and hex: "list_all is_hex_digit ?h" by simp_all
  have hi: "drop 64 ?h \<noteq> []" "list_all is_hex_digit (drop 64 ?h)"
    using len hex by (auto simp: list_all_iff dest: in_set_dropD)
  have lo: "take 64 ?h \<noteq> []" "list_all is_hex_digit (take 64 ?h)"
    using len hex by (auto simp: list_all_iff dest: in_set_takeD)
  have full: "take 64 (drop 64 ?h) = drop 64 ?h" using len by simp
  have bt: "BigInt E (Str (''0x'' @ drop 64 ?h)) = Inr (int (digits_value 16 (drop 64 ?h)))"
    using assms(4) hi by (simp add: BigInt_def)
  have bn: "BigInt E (Str (''0x'' @ take 64 ?h)) = Inr (int (digits_value 16 (take 64 ?h)))"
    using assms(4) lo by (simp add: BigInt_def)
  have "Identity E r (Str s) =
          Inr (make_identity E (int (digits_value 16 (drop 64 ?h)) div 2 ^ 3)
                 (int (digits_value 16 (take 64 ?h)) div 2 ^ 3))" for r
    using assms(1) bt bn unfolding Identity_def Let_def by simp
  then show ?thesis using len by (simp add: make_identity_def full)
qed

theorem Identity_seeded_witness:
  "Identity sample_env (0, 0) (Str ''hello world'') =
     Inr \<lparr> trapdoor = 8628800839564069689650229469345282044730155261114024565614808558117751855853,
           nullifier = 2748948560254893038549745221327966125551593244013978617270881799448191146765,
           secret = 680,
           commitment = 283 \<rparr>"
proof -
  have j: "\<not> isJsonArray sample_env ''hello world''"
    by (simp add: isJsonArray_def sample_env_def sample_JSON_parse_def)
  have d: "sha512 sample_env ''hello world'' =
             ''309ecc489c12d6eb4cc40f50c902f2b4d0ed77ee511a7c7a9bcd3ca86d4cd86f'' @
             ''989dd35bc5ff499670da34255b45b0cfd830e81f605dcf7dc5542e93ae9cd76f''"
    by (simp add: sample_env_def sample_sha512_def)
  have l: "length (sha512 sample_env ''hello world'') \<le> 128" unfolding d by simp
  have x: "list_all is_hex_digit (sha512 sample_env ''hello world'')"
    unfolding d by (simp add: is_hex_digit_def hex_digit_def)
  have b: "\<forall>ds. ds \<noteq> [] \<and> list_all is_hex_digit ds
            \<longrightarrow> StringToBigInt sample_env (''0x'' @ ds) = Some (int (digits_value 16 ds))"
    by (simp add: sample_env_def sample_StringToBigInt_def)
  have p: "padStart (sha512 sample_env ''hello world'') 128 CHR ''0'' =
             ''309ecc489c12d6eb4cc40f50c902f2b4d0ed77ee511a7c7a9bcd3ca86d4cd86f'' @
             ''989dd35bc5ff499670da34255b45b0cfd830e81f605dcf7dc5542e93ae9cd76f''"
    unfolding d by (simp add: padStart_def)
  have v1: "digits_value 16 ''309ecc489c12d6eb4cc40f50c902f2b4d0ed77ee511a7c7a9bcd3ca86d4cd86f'' = 21991588482039144308397961770623729004412745952111828938167054395585529174127"
    by (simp add: digits_value_def digit_of_def hex_digit_def)
  have v2: "digits_value 16 ''989dd35bc5ff499670da34255b45b0cfd830e81f605dcf7dc5542e93ae9cd76f'' = 69030406716512557517201835754762256357841242088912196524918468464942014846831"
    by (simp add: digits_value_def digit_of_def hex_digit_def)
  have ps: "poseidon2 sample_env = (\<lambda>a b. (31 * a + 17 * b + 7) mod 1009)"
    "poseidon1 sample_env = (\<lambda>a. (a * a + 5) mod 1009)"
    by (simp_all add: sample_env_def)
  from Identity_seeded [OF j l x b, of "(0, 0)" "(0, 0)"]
  show ?thesis unfolding p by (simp add: v1 v2 ps)
qed






lemma make_identity_sel:
  "trapdoor (make_identity E t n) = t" "nullifier (make_identity E t n) = n"
  by (simp_all add: make_identity_def)


text \<open>
  Trapdoor and nullifier are field elements, which are unsigned. The constructor keeps
  them so: an identity drawn from non-negative random numbers, or derived from a message
  (the digest is read as a hexadecimal literal without a sign), has a trapdoor and a
  nullifier that are not negative.
\<close>

lemma Identity_unsigned:
  assumes "Identity E rnd v = Inr i"
    and "v = Undefined \<or> (\<exists>s. v = Str s \<and> \<not> isJsonArray E s)"
    and "0 \<le> fst rnd" and "0 \<le> snd rnd"
    and "\<forall>ds n. StringToBigInt E (''0x'' @ ds) = Some n \<longrightarrow> 0 \<le> n"
  shows "0 \<le> trapdoor i \<and> 0 \<le> nullifier i"
proof -
  have pos: "0 \<le> n" if "BigInt E (Str (''0x'' @ ds)) = Inr n" for ds n
  proof -
    from that have "StringToBigInt E (''0x'' @ ds) = Some n"
      by (auto simp: BigInt_def split: option.splits)
    then show ?thesis using assms(5) by blast
  qed
  from assms(2) show ?thesis
  proof
    assume "v = Undefined"
    then show ?thesis using assms(1,3,4) by (auto simp: Identity_def make_identity_def)
  next
    assume "\<exists>s. v = Str s \<and> \<not> isJsonArray E s"
    then obtain s where s: "v = Str s" "\<not> isJsonArray E s" by blast
    let ?h = "padStart (sha512 E s) 128 CHR ''0''"
    from assms(1) s obtain t n where t: "BigInt E (Str (''0x'' @ drop 64 ?h)) = Inr t"
      and n: "BigInt E (Str (''0x'' @ take 64 ?h)) = Inr n"
      and i: "i = make_identity E (t div 2 ^ 3) (n div 2 ^ 3)"
      by (auto simp: Identity_def Let_def split: sum.splits)
    from pos [OF t] pos [OF n] show ?thesis
      by (simp add: i make_identity_def pos_imp_zdiv_nonneg_iff)
  qed
qed



text \<open>
  The condition on the sign is needed. The constructor does not check that a serialized
  pair holds field elements: it accepts \<open>["-0x5","0x1"]\<close> and returns an object with the
  trapdoor -5. \<open>toString\<close> of this object writes \<open>["0x-5","0x1"]\<close>, which the constructor
  rejects. No identity drawn at random, derived from a message or read back from
  \<open>toString\<close> of such an identity is of this kind.
\<close>

lemma Identity_negative_literal:
  "Identity sample_env (0, 0) (Str (JSON_stringify_strings [''-0x5'', ''0x1'']))
     = Inr (make_identity sample_env (- 5) 1)
   \<and> Identity_toString (make_identity sample_env (- 5) 1)
     = JSON_stringify_strings [''0x-5'', ''0x1'']
   \<and> Identity sample_env (0, 0) (Str (Identity_toString (make_identity sample_env (- 5) 1)))
     = Inl InvalidBigNumber"
proof -
  have h: "toString16 (- 5) = ''-5''" "toString16 1 = ''1''"
    by (simp_all add: toString16_def hex_of_nat.simps)
  have s: "Identity_toString (make_identity sample_env (- 5) 1)
             = JSON_stringify_strings [''0x-5'', ''0x1'']"
    by (simp add: Identity_toString_def make_identity_sel h)
  have p1: "JSON_parse sample_env (JSON_stringify_strings [''-0x5'', ''0x1''])
              = Some (JArray [JString ''-0x5'', JString ''0x1''])"
    by (simp add: JSON_stringify_strings_def sample_env_def sample_JSON_parse_def upt_rec)
  have p2: "JSON_parse sample_env (JSON_stringify_strings [''0x-5'', ''0x1''])
              = Some (JArray [JString ''0x-5'', JString ''0x1''])"
    by (simp add: JSON_stringify_strings_def sample_env_def sample_JSON_parse_def upt_rec)
  have b1: "BigNumber_from_string ''-0x5'' = Inr (- 5)" "BigNumber_from_string ''0x1'' = Inr 1"
    by (simp_all add: BigNumber_from_string_def Let_def is_hex_digit_def hex_digit_def
          digits_value_def digit_of_def)
  have b2: "BigNumber_from_string ''0x-5'' = Inl InvalidBigNumber"
    by (simp add: BigNumber_from_string_def Let_def is_hex_digit_def hex_digit_def
          is_dec_digit_def)
  have a: "Identity sample_env (0, 0) (Str (JSON_stringify_strings [''-0x5'', ''0x1'']))
             = Inr (make_identity sample_env (- 5) 1)"
    by (simp add: Identity_def isJsonArray_def p1 BigNumber_toBigInt_def json_index_def b1)
  have c: "Identity sample_env (0, 0) (Str (JSON_stringify_strings [''0x-5'', ''0x1'']))
             = Inl InvalidBigNumber"
    by (simp add: Identity_def isJsonArray_def p2 BigNumber_toBigInt_def json_index_def b2)
  show ?thesis using a s c by simp
qed

end
